theory Spec2Isabelle
  imports Main "HOL-Library.AList" "HOL-Library.Char_ord" "HOL-Library.List_Lexorder"
begin

chapter \<open>A deduplicating, priority-aware asynchronous cache\<close>

text \<open>
  A shallow embedding of \<^verbatim>\<open>src/createUseAsync.ts\<close> and of the error boundary in
  \<^verbatim>\<open>src/CatchUseAsyncError.tsx\<close>. The fingerprint function \<^verbatim>\<open>getKey\<close> is a function on
  requests; the cache of one \<^verbatim>\<open>createUseAsync\<close> instance is a state, and each public
  operation, each start of a task's body and each settlement of a fetch is a function
  from state to state. The React hook itself (\<^verbatim>\<open>useForceRender\<close>, \<^verbatim>\<open>useEffect\<close>) only
  registers a listener and calls \<^verbatim>\<open>read\<close>; what a listener does when it is called is
  outside the model.
\<close>

section \<open>Requests and the fingerprint function\<close>

text \<open>
  A Request is a JavaScript object whose fields hold \<^verbatim>\<open>string | number | undefined\<close>
  (the \<^verbatim>\<open>Args\<close> type of \<^verbatim>\<open>createUseAsync\<close>). It is modelled as the list of its own
  properties in enumeration order, with pairwise distinct names. A finite number is
  modelled as an integer (printed in decimal, as \<^verbatim>\<open>JSON.stringify\<close> prints an integer
  below 1e21); the three non-finite numbers are kept as values of their own, because
  \<^verbatim>\<open>JSON.stringify\<close> treats them specially. A string is a list of 8-bit characters.
\<close>

datatype jsnum = Fin int | NaN | PosInf | NegInf

datatype jsval = Str string | Num jsnum | Undefined

type_synonym request = "(string \<times> jsval) list"

text \<open>\<^verbatim>\<open>omit(args, "priority")\<close> of lodash: a copy of the object without the named property.\<close>

definition omit :: "request \<Rightarrow> string \<Rightarrow> request" where
  "omit req k = filter (\<lambda>p. fst p \<noteq> k) req"

text \<open>
  \<^verbatim>\<open>JSON.stringify\<close> on the values that reach it in \<^verbatim>\<open>getKey\<close>: an array of
  two-element arrays \<^verbatim>\<open>[name, value]\<close>. A string is quoted, with the quotation mark, the
  backslash and the control characters escaped; a finite number is printed in decimal;
  \<^verbatim>\<open>NaN\<close>, the infinities and \<^verbatim>\<open>undefined\<close> (as an array element) are all printed as
  \<^verbatim>\<open>null\<close>.
\<close>

definition hex_digit :: "nat \<Rightarrow> char" where
  "hex_digit d = char_of (if d < 10 then 48 + d else 87 + d)"

definition json_char :: "char \<Rightarrow> string" where
  "json_char c =
     (if c = CHR 0x08 then [CHR 0x5C, CHR ''b'']
      else if c = CHR 0x09 then [CHR 0x5C, CHR ''t'']
      else if c = CHR 0x0A then [CHR 0x5C, CHR ''n'']
      else if c = CHR 0x0C then [CHR 0x5C, CHR ''f'']
      else if c = CHR 0x0D then [CHR 0x5C, CHR ''r'']
      else if c = CHR 0x22 then [CHR 0x5C, CHR 0x22]
      else if c = CHR 0x5C then [CHR 0x5C, CHR 0x5C]
      else if (of_char c :: nat) < 0x20 then
        [CHR 0x5C, CHR ''u'', CHR ''0'', CHR ''0'',
         hex_digit (of_char c div 16), hex_digit (of_char c mod 16)]
      else [c])"

definition json_string :: "string \<Rightarrow> string" where
  "json_string s = CHR 0x22 # concat (map json_char s) @ [CHR 0x22]"

definition dec_digit :: "nat \<Rightarrow> char" where
  "dec_digit d = char_of (48 + d)"

fun dec_nat :: "nat \<Rightarrow> string" where
  "dec_nat n = (if n < 10 then [dec_digit n] else dec_nat (n div 10) @ [dec_digit (n mod 10)])"

declare dec_nat.simps [simp del]

definition json_number :: "jsnum \<Rightarrow> string" where
  "json_number n =
     (case n of
        Fin i \<Rightarrow> (if i < 0 then CHR ''-'' # dec_nat (nat (- i)) else dec_nat (nat i))
      | NaN \<Rightarrow> ''null''
      | PosInf \<Rightarrow> ''null''
      | NegInf \<Rightarrow> ''null'')"

definition json_value :: "jsval \<Rightarrow> string" where
  "json_value v =
     (case v of Str s \<Rightarrow> json_string s | Num n \<Rightarrow> json_number n | Undefined \<Rightarrow> ''null'')"

fun json_join :: "string list \<Rightarrow> string" where
  "json_join [] = []"
| "json_join [x] = x"
| "json_join (x # y # ys) = x @ CHR '','' # json_join (y # ys)"

definition json_array :: "string list \<Rightarrow> string" where
  "json_array xs = CHR ''['' # json_join xs @ [CHR '']'']"

definition json_entry :: "string \<times> jsval \<Rightarrow> string" where
  "json_entry p = json_array [json_string (fst p), json_value (snd p)]"

text \<open>
  Modelled from the spec: \<^verbatim>\<open>a.localeCompare(b)\<close> is a built-in whose collation is not
  part of the repository. The spec says that the field names are sorted
  lexicographically, so the comparison is the lexicographic order on strings: negative,
  zero or positive as \<^verbatim>\<open>a\<close> sorts before, with or after \<^verbatim>\<open>b\<close>.
\<close>

definition localeCompare :: "string \<Rightarrow> string \<Rightarrow> int" where
  "localeCompare a b = (if a < b then - 1 else if a = b then 0 else 1)"

text \<open>
  \<^verbatim>\<open>Array.prototype.sort(comparefn)\<close> is a stable sort: an insertion sort that puts an
  element before the first one it does not sort after.
\<close>

fun insert_sorted :: "('a \<Rightarrow> 'a \<Rightarrow> int) \<Rightarrow> 'a \<Rightarrow> 'a list \<Rightarrow> 'a list" where
  "insert_sorted cmp x [] = [x]"
| "insert_sorted cmp x (y # ys) =
     (if cmp x y \<le> 0 then x # y # ys else y # insert_sorted cmp x ys)"

definition sort_with :: "('a \<Rightarrow> 'a \<Rightarrow> int) \<Rightarrow> 'a list \<Rightarrow> 'a list" where
  "sort_with cmp xs = foldr (insert_sorted cmp) xs []"

text \<open>
  \<^verbatim>\<open>getKey\<close>: the entries of the request without \<^verbatim>\<open>priority\<close>, sorted by name, as JSON.
\<close>

definition getKey :: "request \<Rightarrow> string" where
  "getKey req =
     json_array (map json_entry
       (sort_with (\<lambda>a b. localeCompare (fst a) (fst b)) (omit req ''priority'')))"

text \<open>
  \<^verbatim>\<open>args.priority || 0\<close>: a missing or \<^verbatim>\<open>undefined\<close> priority, \<^verbatim>\<open>NaN\<close> and 0 are falsy and
  give 0. The type of \<^verbatim>\<open>Args\<close> declares \<^verbatim>\<open>priority?: number\<close>, so a string never stands
  there; the model reads one as 0.
\<close>

definition priority_or_0 :: "request \<Rightarrow> jsnum" where
  "priority_or_0 req =
     (case map_of req ''priority'' of
        Some (Num n) \<Rightarrow> (if n = NaN then Fin 0 else n)
      | _ \<Rightarrow> Fin 0)"

text \<open>The comparison \<^verbatim>\<open><\<close> of two numbers.\<close>

fun num_less :: "jsnum \<Rightarrow> jsnum \<Rightarrow> bool" where
  "num_less (Fin a) (Fin b) = (a < b)"
| "num_less NegInf (Fin b) = True"
| "num_less NegInf PosInf = True"
| "num_less (Fin a) PosInf = True"
| "num_less _ _ = False"

section \<open>The cache engine\<close>

subsection \<open>Data\<close>

text \<open>
  A fetch attempt is the task that \<^verbatim>\<open>startLoading\<close> hands to the queue, with the two
  flags its closure holds (\<^verbatim>\<open>aborted\<close>, \<^verbatim>\<open>started\<close>) and its \<^verbatim>\<open>meta\<close>. \<open>finished\<close> says
  that the task's body has returned, so that the promise of \<^verbatim>\<open>queue.add\<close> is resolved.
  The engine keeps all the attempts it has submitted in a list; a handle (the
  \<^verbatim>\<open>AbortablePromise\<close> object of the source) is the attempt's position in that list.
\<close>

record attempt =
  aborted :: bool
  started :: bool
  finished :: bool
  meta :: request

datatype Status = Pending | Resolved | Rejected

text \<open>An \<^verbatim>\<open>Error\<close> object: a \<^verbatim>\<open>UseAsyncError\<close> wrapping what was thrown, or any other error.\<close>

datatype 'x js_error = UseAsyncError 'x | OtherError 'x

text \<open>What the \<^verbatim>\<open>value\<close> field of an entry holds: a handle, the data, or an error.\<close>

datatype ('d, 'x) slot = Promise nat | Data 'd | Failure "'x js_error"

record ('d, 'x) CacheStatus =
  status :: Status
  value' :: "('d, 'x) slot"
  next' :: "nat option"
  args :: request

text \<open>
  The state of one \<^verbatim>\<open>createUseAsync\<close> instance: the \<^verbatim>\<open>cache\<close> object (its properties in
  insertion order), the emitter's registrations (event name and callback, in order of
  registration), the attempts submitted to the queue, and two logs: the event names
  passed to \<^verbatim>\<open>emitter.emit\<close> and the arguments of the calls of \<^verbatim>\<open>fetchData\<close>.
\<close>

record ('d, 'x) engine =
  cache :: "(string \<times> ('d, 'x) CacheStatus) list"
  handlers :: "(string \<times> nat) list"
  tasks :: "attempt list"
  emitted :: "string list"
  fetched :: "request list"

definition init :: "('d, 'x) engine" where
  "init = \<lparr>cache = [], handlers = [], tasks = [], emitted = [], fetched = []\<rparr>"

subsection \<open>The emitter\<close>

text \<open>
  The emitter is an \<^verbatim>\<open>EventEmitter\<close> of the library \<^verbatim>\<open>eventemitter3\<close>: \<^verbatim>\<open>on\<close> registers a
  callback for an event name, \<^verbatim>\<open>off\<close> removes the registrations of that callback for
  that name, \<^verbatim>\<open>listenerCount\<close> counts the registrations for a name, and \<^verbatim>\<open>emit\<close> calls the
  callbacks registered for a name. The model records the names emitted, in order.
\<close>

definition emitter_on :: "('d, 'x) engine \<Rightarrow> string \<Rightarrow> nat \<Rightarrow> ('d, 'x) engine" where
  "emitter_on s ev cb = s\<lparr>handlers := handlers s @ [(ev, cb)]\<rparr>"

definition emitter_off :: "('d, 'x) engine \<Rightarrow> string \<Rightarrow> nat \<Rightarrow> ('d, 'x) engine" where
  "emitter_off s ev cb = s\<lparr>handlers := filter (\<lambda>h. h \<noteq> (ev, cb)) (handlers s)\<rparr>"

definition listenerCount :: "('d, 'x) engine \<Rightarrow> string \<Rightarrow> nat" where
  "listenerCount s ev = length (filter (\<lambda>h. fst h = ev) (handlers s))"

definition emit :: "('d, 'x) engine \<Rightarrow> string \<Rightarrow> ('d, 'x) engine" where
  "emit s ev = s\<lparr>emitted := emitted s @ [ev]\<rparr>"

subsection \<open>Cancellation\<close>

text \<open>\<^verbatim>\<open>abort: () => { if (!started) aborted = true; return aborted; }\<close>\<close>

definition abort :: "attempt \<Rightarrow> bool \<times> attempt" where
  "abort a = (let a' = (if \<not> started a then a\<lparr>aborted := True\<rparr> else a) in (aborted a', a'))"

definition abort_task :: "('d, 'x) engine \<Rightarrow> nat \<Rightarrow> bool \<times> ('d, 'x) engine" where
  "abort_task s h =
     (let (ok, a') = abort (tasks s ! h) in (ok, s\<lparr>tasks := (tasks s)[h := a']\<rparr>))"

subsection \<open>\<^verbatim>\<open>startLoading\<close>\<close>

text \<open>
  The second branch of the preemption step: a pending entry whose attempt can still be
  aborted is deleted. The \<^verbatim>\<open>Cache\<close> type says that the value of a pending entry is a
  handle; for any other value the model does nothing.
\<close>

definition preempt_pending ::
  "('d, 'x) engine \<Rightarrow> string \<Rightarrow> ('d, 'x) CacheStatus \<Rightarrow> ('d, 'x) engine" where
  "preempt_pending s key existingCache =
     (if status existingCache = Pending then
        (case value' existingCache of
           Promise h \<Rightarrow>
             (let (ok, s1) = abort_task s h in
              if ok then s1\<lparr>cache := AList.delete key (cache s1)\<rparr> else s1)
         | _ \<Rightarrow> s)
      else s)"

text \<open>
  The first half of \<^verbatim>\<open>startLoading\<close>: an entry whose request has a lower priority than
  the incoming one may lose its attempt.
\<close>

definition preempt :: "('d, 'x) engine \<Rightarrow> request \<Rightarrow> bool \<Rightarrow> ('d, 'x) engine" where
  "preempt s req isRefetch =
     (let key = getKey req in
      case map_of (cache s) key of
        None \<Rightarrow> s
      | Some existingCache \<Rightarrow>
          if num_less (priority_or_0 (args existingCache)) (priority_or_0 req) then
            (case (if isRefetch then next' existingCache else None) of
               Some h \<Rightarrow>
                 (let (ok, s1) = abort_task s h in
                  if ok then
                    s1\<lparr>cache := AList.update key (existingCache\<lparr>next' := None\<rparr>) (cache s1)\<rparr>
                  else preempt_pending s1 key existingCache)
             | None \<Rightarrow> preempt_pending s key existingCache)
          else s)"

definition new_attempt :: "request \<Rightarrow> attempt" where
  "new_attempt req = \<lparr>aborted = False, started = False, finished = False, meta = req\<rparr>"

text \<open>
  The second half of \<^verbatim>\<open>startLoading\<close>: the table is read again; a new attempt is
  submitted to the queue when there is no entry, or on a refetch of a settled entry.
  The result is \<^verbatim>\<open>cache[key]\<close> and the new state.
\<close>

definition admit ::
  "('d, 'x) engine \<Rightarrow> request \<Rightarrow> bool \<Rightarrow> ('d, 'x) CacheStatus \<times> ('d, 'x) engine" where
  "admit s req isRefetch =
     (let key = getKey req in
      case map_of (cache s) key of
        None \<Rightarrow>
          (let e = \<lparr>status = Pending, value' = Promise (length (tasks s)), next' = None,
                    args = req\<rparr>
           in (e, s\<lparr>cache := AList.update key e (cache s),
                    tasks := tasks s @ [new_attempt req]\<rparr>))
      | Some existingCache \<Rightarrow>
          if isRefetch \<and> status existingCache \<noteq> Pending then
            (let e = existingCache\<lparr>args := req, next' := Some (length (tasks s))\<rparr>
             in (e, s\<lparr>cache := AList.update key e (cache s),
                      tasks := tasks s @ [new_attempt req]\<rparr>))
          else (existingCache, s))"

definition startLoading ::
  "('d, 'x) engine \<Rightarrow> request \<Rightarrow> bool \<Rightarrow> ('d, 'x) CacheStatus \<times> ('d, 'x) engine" where
  "startLoading s req isRefetch = admit (preempt s req isRefetch) req isRefetch"

subsection \<open>The body of an attempt\<close>

text \<open>
  Modelled from the spec: the queue (\<^verbatim>\<open>p-queue\<close>) is not part of the repository. As the
  spec describes it, a submitted task begins executing when the scheduler's turn allows,
  with no bound on the tasks running at once: so the body of a task starts at some
  moment after \<^verbatim>\<open>startLoading\<close> has submitted it, in no fixed order, and \<^verbatim>\<open>abort\<close> may
  come before or after that moment.

  The body first looks at \<^verbatim>\<open>aborted\<close>: an aborted task returns at once; any other sets
  \<^verbatim>\<open>started\<close> and calls \<^verbatim>\<open>fetchData(args)\<close>, whose promise it awaits.
\<close>

definition run_body :: "('d, 'x) engine \<Rightarrow> nat \<Rightarrow> ('d, 'x) engine" where
  "run_body s h =
     (let a = tasks s ! h in
      if aborted a then s\<lparr>tasks := (tasks s)[h := a\<lparr>finished := True\<rparr>]\<rparr>
      else s\<lparr>tasks := (tasks s)[h := a\<lparr>started := True\<rparr>], fetched := fetched s @ [meta a]\<rparr>)"

text \<open>The outcome of \<^verbatim>\<open>fetchData\<close>: its promise is fulfilled with data, or it fails.\<close>

datatype ('d, 'x) outcome = Fulfilled 'd | Failed 'x

text \<open>
  The rest of the body, run when the promise of \<^verbatim>\<open>fetchData\<close> settles: with no entry
  under the key it returns; otherwise it writes the status and the value, clears
  \<^verbatim>\<open>next\<close> and emits the key and \<^verbatim>\<open>"any"\<close>.
\<close>

definition settle :: "('d, 'x) engine \<Rightarrow> nat \<Rightarrow> ('d, 'x) outcome \<Rightarrow> ('d, 'x) engine" where
  "settle s h out =
     (let a = tasks s ! h;
          key = getKey (meta a);
          s1 = s\<lparr>tasks := (tasks s)[h := a\<lparr>finished := True\<rparr>]\<rparr>
      in case map_of (cache s1) key of
           None \<Rightarrow> s1
         | Some e \<Rightarrow>
             (let e' = (case out of
                          Fulfilled data \<Rightarrow> e\<lparr>status := Resolved, value' := Data data\<rparr>
                        | Failed err \<Rightarrow>
                            e\<lparr>status := Rejected, value' := Failure (UseAsyncError err)\<rparr>);
                  s2 = s1\<lparr>cache := AList.update key (e'\<lparr>next' := None\<rparr>) (cache s1)\<rparr>
              in emit (emit s2 key) ''any''))"

subsection \<open>The public operations\<close>

text \<open>
  \<^verbatim>\<open>read\<close> returns the value of a resolved entry (\<open>Inr\<close>) and throws the value of a
  pending or rejected one (\<open>Inl\<close>): the handle, for the caller to wait on, or the error.
\<close>

definition read ::
  "('d, 'x) engine \<Rightarrow> request \<Rightarrow> (('d, 'x) slot + ('d, 'x) slot) \<times> ('d, 'x) engine" where
  "read s req =
     (let (state, s') = startLoading s req False in
      (case status state of
         Pending \<Rightarrow> Inl (value' state)
       | Resolved \<Rightarrow> Inr (value' state)
       | Rejected \<Rightarrow> Inl (value' state),
       s'))"

text \<open>
  \<^verbatim>\<open>preload\<close> up to its first suspension: on a pending entry it awaits the handle and
  then calls itself again, which is a new call of \<^verbatim>\<open>preload\<close> at that later time.
\<close>

datatype ('d, 'x) preload_result =
  Await "('d, 'x) slot" | Return "('d, 'x) slot" | Throw "('d, 'x) slot"

definition preload ::
  "('d, 'x) engine \<Rightarrow> request \<Rightarrow> ('d, 'x) preload_result \<times> ('d, 'x) engine" where
  "preload s req =
     (let (state, s') = startLoading s req False in
      (case status state of
         Pending \<Rightarrow> Await (value' state)
       | Resolved \<Rightarrow> Return (value' state)
       | Rejected \<Rightarrow> Throw (value' state),
       s'))"

definition invalidate :: "('d, 'x) engine \<Rightarrow> request \<Rightarrow> ('d, 'x) engine" where
  "invalidate s req =
     (let key = getKey req in
      if listenerCount s key > 0 \<and>
         (case map_of (cache s) key of
            None \<Rightarrow> False
          | Some e \<Rightarrow> status e \<noteq> Pending \<and> next' e = None)
      then snd (startLoading s req True)
      else emit (emit (s\<lparr>cache := AList.delete key (cache s)\<rparr>) key) ''any'')"

text \<open>
  \<^verbatim>\<open>invalidateAll\<close> walks the entries that \<^verbatim>\<open>Object.values(cache)\<close> returned when it was
  called, and invalidates the request of each (of each rejected one, with
  \<^verbatim>\<open>onlyRejected\<close>).
\<close>

definition invalidateAll :: "('d, 'x) engine \<Rightarrow> bool \<Rightarrow> ('d, 'x) engine" where
  "invalidateAll s onlyRejected =
     fold (\<lambda>e s'. if \<not> onlyRejected \<or> status e = Rejected then invalidate s' (args e) else s')
       (map snd (cache s)) s"

text \<open>\<^verbatim>\<open>on\<close> and \<^verbatim>\<open>off\<close> take a request or the string \<^verbatim>\<open>"any"\<close>.\<close>

datatype target = Args request | AnyEvent

definition event_name :: "target \<Rightarrow> string" where
  "event_name t = (case t of AnyEvent \<Rightarrow> ''any'' | Args req \<Rightarrow> getKey req)"

definition on :: "('d, 'x) engine \<Rightarrow> target \<Rightarrow> nat \<Rightarrow> ('d, 'x) engine" where
  "on s t cb = emitter_on s (event_name t) cb"

definition off :: "('d, 'x) engine \<Rightarrow> target \<Rightarrow> nat \<Rightarrow> ('d, 'x) engine" where
  "off s t cb = emitter_off s (event_name t) cb"

subsection \<open>The error boundary\<close>

text \<open>
  \<^verbatim>\<open>getDerivedStateFromError\<close> of \<^verbatim>\<open>CatchUseAsyncError\<close>: an error that is not a
  \<^verbatim>\<open>UseAsyncError\<close> is thrown again (\<open>Inl\<close>); a \<^verbatim>\<open>UseAsyncError\<close> becomes the state of
  the boundary.
\<close>

definition getDerivedStateFromError :: "'x js_error \<Rightarrow> 'x js_error + 'x js_error option" where
  "getDerivedStateFromError error =
     (case error of UseAsyncError x \<Rightarrow> Inr (Some error) | OtherError x \<Rightarrow> Inl error)"

subsection \<open>Runs of the engine\<close>

text \<open>
  What can happen to an engine: a call of a public operation, the queue running the body
  of a submitted task that has not run yet, and the promise of \<^verbatim>\<open>fetchData\<close> settling for
  a task that is waiting for it. The JavaScript run-time runs each to completion before
  the next. An event that cannot happen in a state (the body of a task that has already
  run, the settlement of a task that is not waiting) leaves the state as it is.
\<close>

datatype ('d, 'x) event =
  Read request
| Preload request
| Invalidate request
| InvalidateAll bool
| On target nat
| Off target nat
| Start nat
| Settle nat "('d, 'x) outcome"

fun step :: "('d, 'x) engine \<Rightarrow> ('d, 'x) event \<Rightarrow> ('d, 'x) engine" where
  "step s (Read req) = snd (read s req)"
| "step s (Preload req) = snd (preload s req)"
| "step s (Invalidate req) = invalidate s req"
| "step s (InvalidateAll onlyRejected) = invalidateAll s onlyRejected"
| "step s (On t cb) = on s t cb"
| "step s (Off t cb) = off s t cb"
| "step s (Start h) =
     (if h < length (tasks s) \<and> \<not> started (tasks s ! h) \<and> \<not> finished (tasks s ! h)
      then run_body s h else s)"
| "step s (Settle h out) =
     (if h < length (tasks s) \<and> started (tasks s ! h) \<and> \<not> finished (tasks s ! h)
      then settle s h out else s)"

definition run :: "('d, 'x) engine \<Rightarrow> ('d, 'x) event list \<Rightarrow> ('d, 'x) engine" where
  "run s es = foldl step s es"

section \<open>Notions used in the statements and proofs\<close>

text \<open>
  The values that \<^verbatim>\<open>JSON.stringify\<close> prints as \<^verbatim>\<open>null\<close>, and a request's field with such a
  value replaced by \<^verbatim>\<open>undefined\<close>.
\<close>

definition json_null :: "jsval \<Rightarrow> bool" where
  "json_null v = (case v of Str s \<Rightarrow> False | Num (Fin i) \<Rightarrow> False | Num _ \<Rightarrow> True | Undefined \<Rightarrow> True)"

definition nullify :: "jsval \<Rightarrow> jsval" where
  "nullify v = (if json_null v then Undefined else v)"

definition canon_entry :: "string \<times> jsval \<Rightarrow> string \<times> jsval" where
  "canon_entry p = (fst p, nullify (snd p))"

text \<open>Decimal digits and their values, to read a printed number back.\<close>

definition is_digit :: "char \<Rightarrow> bool" where
  "is_digit c = (48 \<le> (of_char c :: nat) \<and> (of_char c :: nat) \<le> 57)"

definition digit_val :: "char \<Rightarrow> nat" where
  "digit_val c = of_char c - 48"

text \<open>The condition under which \<^verbatim>\<open>invalidate\<close> refreshes instead of deleting.\<close>

definition refreshable :: "('d, 'x) engine \<Rightarrow> request \<Rightarrow> bool" where
  "refreshable s req =
     (0 < listenerCount s (getKey req) \<and>
      (case map_of (cache s) (getKey req) of
         None \<Rightarrow> False
       | Some e \<Rightarrow> status e \<noteq> Pending \<and> next' e = None))"


text \<open>Example data: two requests with one fingerprint, and an engine with no entries.\<close>

definition req_a :: request where
  "req_a = [(''id'', Num (Fin 1))]"

definition req_b :: request where
  "req_b = [(''priority'', Num (Fin 5)), (''id'', Num (Fin 1))]"

definition engine0 :: "(nat, string) engine" where
  "engine0 = init"

text \<open>
  An attempt is in flight when it is neither cancelled nor settled. The attempts an entry
  refers to: the value of a pending entry, and its \<^verbatim>\<open>next\<close>.
\<close>

definition live :: "attempt \<Rightarrow> bool" where
  "live a = (\<not> aborted a \<and> \<not> finished a)"

definition refs :: "('d, 'x) CacheStatus \<Rightarrow> nat set" where
  "refs e =
     (case value' e of Promise h \<Rightarrow> (if status e = Pending then {h} else {}) | _ \<Rightarrow> {}) \<union>
     set_option (next' e)"

text \<open>
  What holds of every entry \<open>e\<close> stored under a key \<open>k\<close>, given the attempts \<open>ts\<close>: its
  request has the fingerprint \<open>k\<close>; a \<^verbatim>\<open>next\<close> is there only when the entry is not pending,
  and is an attempt in flight for the entry's request; the value of a pending entry is
  an attempt in flight for the entry's request.
\<close>

definition entry_ok :: "attempt list \<Rightarrow> string \<Rightarrow> ('d, 'x) CacheStatus \<Rightarrow> bool" where
  "entry_ok ts k e =
     (getKey (args e) = k \<and>
      (case next' e of
         None \<Rightarrow> True
       | Some h \<Rightarrow> status e \<noteq> Pending \<and> h < length ts \<and> meta (ts ! h) = args e \<and> live (ts ! h)) \<and>
      (status e = Pending \<longrightarrow>
         (case value' e of
            Promise h \<Rightarrow> h < length ts \<and> meta (ts ! h) = args e \<and> live (ts ! h)
          | _ \<Rightarrow> False)))"

definition cache_ok :: "attempt list \<Rightarrow> (string \<times> ('d, 'x) CacheStatus) list \<Rightarrow> bool" where
  "cache_ok ts c = (\<forall>k e. map_of c k = Some e \<longrightarrow> entry_ok ts k e)"

text \<open>
  The invariant of the engine: every entry is as \<^const>\<open>entry_ok\<close> says, and no attempt is
  both started and aborted.
\<close>

definition consistent :: "('d, 'x) engine \<Rightarrow> bool" where
  "consistent s =
     (cache_ok (tasks s) (cache s) \<and> (\<forall>a \<in> set (tasks s). started a \<longrightarrow> \<not> aborted a))"

text \<open>
  Every attempt in flight is referred to by the entry under its fingerprint. This holds
  as long as \<^verbatim>\<open>invalidate\<close> meets no attempt in flight.
\<close>

definition attached :: "('d, 'x) engine \<Rightarrow> bool" where
  "attached s =
     (\<forall>h < length (tasks s). live (tasks s ! h) \<longrightarrow>
        (\<exists>e. map_of (cache s) (getKey (meta (tasks s ! h))) = Some e \<and> h \<in> refs e))"

text \<open>No attempt with the fingerprint \<open>k\<close> is in flight.\<close>

definition idle :: "('d, 'x) engine \<Rightarrow> string \<Rightarrow> bool" where
  "idle s k = list_all (\<lambda>a. getKey (meta a) = k \<longrightarrow> \<not> live a) (tasks s)"

text \<open>
  An event is quiet when each \<^verbatim>\<open>invalidate\<close> it performs (one for \<^verbatim>\<open>invalidate\<close>, one per
  entry visited for \<^verbatim>\<open>invalidateAll\<close>) is for a fingerprint that has no attempt in flight
  at that moment. A run is quiet when each of its events is, in the state it happens in.
\<close>

fun quiet_all :: "('d, 'x) engine \<Rightarrow> bool \<Rightarrow> ('d, 'x) CacheStatus list \<Rightarrow> bool" where
  "quiet_all s onlyRejected [] = True"
| "quiet_all s onlyRejected (e # es) =
     (if \<not> onlyRejected \<or> status e = Rejected
      then idle s (getKey (args e)) \<and> quiet_all (invalidate s (args e)) onlyRejected es
      else quiet_all s onlyRejected es)"

fun quiet :: "('d, 'x) engine \<Rightarrow> ('d, 'x) event \<Rightarrow> bool" where
  "quiet s (Invalidate req) = idle s (getKey req)"
| "quiet s (InvalidateAll onlyRejected) = quiet_all s onlyRejected (map snd (cache s))"
| "quiet s ev = True"

fun quiet_run :: "('d, 'x) engine \<Rightarrow> ('d, 'x) event list \<Rightarrow> bool" where
  "quiet_run s [] = True"
| "quiet_run s (ev # evs) = (quiet s ev \<and> quiet_run (step s ev) evs)"

text \<open>An attempt that was aborted before its body started.\<close>

definition cancelled :: "('d, 'x) engine \<Rightarrow> nat \<Rightarrow> bool" where
  "cancelled s h = (h < length (tasks s) \<and> aborted (tasks s ! h) \<and> \<not> started (tasks s ! h))"

text \<open>
  For the deduplication of reads. The calls of \<^verbatim>\<open>fetchData\<close> for a fingerprint; a
  fingerprint the engine has not seen (no entry, no attempt, no call of \<^verbatim>\<open>fetchData\<close>);
  the events of concurrent reads of one fingerprint (reads and preloads of requests with
  that fingerprint, and the queue starting bodies); and the queue running the body of
  every submitted task that has not run yet.
\<close>

definition fetches_for :: "('d, 'x) engine \<Rightarrow> string \<Rightarrow> request list" where
  "fetches_for s k = filter (\<lambda>req. getKey req = k) (fetched s)"

definition unseen :: "('d, 'x) engine \<Rightarrow> string \<Rightarrow> bool" where
  "unseen s k =
     (map_of (cache s) k = None \<and> list_all (\<lambda>a. getKey (meta a) \<noteq> k) (tasks s) \<and>
      fetches_for s k = [])"

fun read_or_start :: "string \<Rightarrow> ('d, 'x) event \<Rightarrow> bool" where
  "read_or_start k (Read req) = (getKey req = k)"
| "read_or_start k (Preload req) = (getKey req = k)"
| "read_or_start k (Start h) = True"
| "read_or_start k ev = False"

fun is_read :: "('d, 'x) event \<Rightarrow> bool" where
  "is_read (Read req) = True"
| "is_read (Preload req) = True"
| "is_read ev = False"

definition flush :: "('d, 'x) engine \<Rightarrow> ('d, 'x) engine" where
  "flush s = fold (\<lambda>h s'. step s' (Start h)) [0..<length (tasks s)] s"

text \<open>
  The state of a fingerprint \<open>k\<close> after concurrent reads: attempt \<open>h\<close> is the value of
  the pending entry, neither aborted nor finished; every other attempt for \<open>k\<close> was
  aborted before it started; and \<^verbatim>\<open>fetchData\<close> has been called for \<open>k\<close> once if the body
  of \<open>h\<close> has started, and not at all otherwise.
\<close>

definition sole_attempt :: "('d, 'x) engine \<Rightarrow> string \<Rightarrow> nat \<Rightarrow> bool" where
  "sole_attempt s k h =
     (h < length (tasks s) \<and>
      map_of (cache s) k =
        Some \<lparr>status = Pending, value' = Promise h, next' = None, args = meta (tasks s ! h)\<rparr> \<and>
      getKey (meta (tasks s ! h)) = k \<and>
      \<not> aborted (tasks s ! h) \<and> \<not> finished (tasks s ! h) \<and>
      (\<forall>j < length (tasks s). j \<noteq> h \<and> getKey (meta (tasks s ! j)) = k \<longrightarrow>
         aborted (tasks s ! j) \<and> \<not> started (tasks s ! j)) \<and>
      fetches_for s k = (if started (tasks s ! h) then [meta (tasks s ! h)] else []))"

text \<open>
  Which request produced the value that is visible under a fingerprint. The settlement
  of an attempt writes its outcome into the entry under the attempt's fingerprint;
  \<open>produced\<close> follows a run and keeps, for each fingerprint, the request and the outcome
  of the attempt whose settlement last wrote an entry there.
\<close>

definition outcome_status :: "('d, 'x) outcome \<Rightarrow> Status" where
  "outcome_status out = (case out of Fulfilled data \<Rightarrow> Resolved | Failed err \<Rightarrow> Rejected)"

definition outcome_value :: "('d, 'x) outcome \<Rightarrow> ('d, 'x) slot" where
  "outcome_value out =
     (case out of Fulfilled data \<Rightarrow> Data data | Failed err \<Rightarrow> Failure (UseAsyncError err))"

definition produced_step ::
  "('d, 'x) engine \<Rightarrow> (string \<rightharpoonup> request \<times> ('d, 'x) outcome) \<Rightarrow> ('d, 'x) event \<Rightarrow>
   (string \<rightharpoonup> request \<times> ('d, 'x) outcome)" where
  "produced_step s p ev =
     (case ev of
        Settle h out \<Rightarrow>
          (if h < length (tasks s) \<and> started (tasks s ! h) \<and> \<not> finished (tasks s ! h) \<and>
              map_of (cache s) (getKey (meta (tasks s ! h))) \<noteq> None
           then p(getKey (meta (tasks s ! h)) \<mapsto> (meta (tasks s ! h), out))
           else p)
      | _ \<Rightarrow> p)"

fun produced ::
  "('d, 'x) engine \<Rightarrow> (string \<rightharpoonup> request \<times> ('d, 'x) outcome) \<Rightarrow> ('d, 'x) event list \<Rightarrow>
   (string \<rightharpoonup> request \<times> ('d, 'x) outcome)" where
  "produced s p [] = p"
| "produced s p (ev # evs) = produced (step s ev) (produced_step s p ev) evs"

text \<open>
  Every settled entry shows the outcome that was last written under its fingerprint, and
  when it has no \<^verbatim>\<open>next\<close> its \<^verbatim>\<open>args\<close> is the request that produced that outcome.
\<close>

definition traced ::
  "('d, 'x) engine \<Rightarrow> (string \<rightharpoonup> request \<times> ('d, 'x) outcome) \<Rightarrow> bool" where
  "traced s p =
     (\<forall>k e. map_of (cache s) k = Some e \<and> status e \<noteq> Pending \<longrightarrow>
        (\<exists>req out. p k = Some (req, out) \<and> status e = outcome_status out \<and>
           value' e = outcome_value out \<and> (next' e = None \<longrightarrow> args e = req)))"

section \<open>The fingerprint is injective up to \<^verbatim>\<open>null\<close>\<close>

lemma hex_digit_inj: "a < 16 \<Longrightarrow> b < 16 \<Longrightarrow> hex_digit a = hex_digit b \<Longrightarrow> a = b"
proof -
  assume a: "a < 16" and b: "b < 16" and e: "hex_digit a = hex_digit b"
  from e have "(of_char (hex_digit a) :: nat) = of_char (hex_digit b)" by simp
  with a b show ?thesis
    by (simp add: hex_digit_def split: if_splits)
qed

lemma hex_pair_inj:
  assumes "n < 32" "m < 32"
    and "hex_digit (n div 16) = hex_digit (m div 16)"
    and "hex_digit (n mod 16) = hex_digit (m mod 16)"
  shows "n = m"
proof -
  have "n div 16 = m div 16" using assms by (intro hex_digit_inj) auto
  moreover have "n mod 16 = m mod 16" using assms by (intro hex_digit_inj) auto
  ultimately show ?thesis by (metis div_mult_mod_eq)
qed

lemma json_char_prefix:
  "json_char c @ x = json_char d @ y \<Longrightarrow> c = d \<and> x = y"
  by (auto simp: json_char_def split: if_splits dest: hex_pair_inj)

lemma json_char_hd: "\<exists>h t. json_char c = h # t \<and> h \<noteq> CHR 0x22"
  by (auto simp: json_char_def)


lemma json_body_prefix:
  "concat (map json_char s) @ CHR 0x22 # r = concat (map json_char t) @ CHR 0x22 # r'
   \<Longrightarrow> s = t \<and> r = r'"
proof (induction s arbitrary: t)
  case Nil
  show ?case
  proof (cases t)
    case Nil
    with Nil.prems show ?thesis by simp
  next
    case (Cons d t')
    obtain h u where "json_char d = h # u" "h \<noteq> CHR 0x22"
      using json_char_hd by blast
    with Nil.prems Cons show ?thesis by simp
  qed
next
  case (Cons c s)
  show ?case
  proof (cases t)
    case Nil
    obtain h u where "json_char c = h # u" "h \<noteq> CHR 0x22"
      using json_char_hd by blast
    with Cons.prems Nil show ?thesis by simp
  next
    case (Cons d t')
    with Cons.prems have
      "json_char c @ (concat (map json_char s) @ CHR 0x22 # r) =
       json_char d @ (concat (map json_char t') @ CHR 0x22 # r')"
      by simp
    then have "c = d" and
      "concat (map json_char s) @ CHR 0x22 # r = concat (map json_char t') @ CHR 0x22 # r'"
      using json_char_prefix by blast+
    with Cons.IH Cons show ?thesis by blast
  qed
qed

lemma json_string_prefix:
  "json_string s @ r = json_string t @ r' \<Longrightarrow> s = t \<and> r = r'"
  using json_body_prefix [of s r t r'] by (simp add: json_string_def)

lemma dec_digit_is_digit: "d < 10 \<Longrightarrow> is_digit (dec_digit d)"
  by (simp add: is_digit_def dec_digit_def)

lemma dec_nat_digits: "\<forall>c \<in> set (dec_nat n). is_digit c"
proof (induction n rule: dec_nat.induct)
  case (1 n)
  show ?case
  proof (cases "n < 10")
    case True
    then show ?thesis by (subst dec_nat.simps) (simp add: dec_digit_is_digit)
  next
    case False
    with 1 show ?thesis by (subst dec_nat.simps) (simp add: dec_digit_is_digit)
  qed
qed

lemma dec_nat_nonempty: "dec_nat n \<noteq> []"
  by (subst dec_nat.simps) simp

lemma digit_val_dec_digit: "d < 10 \<Longrightarrow> digit_val (dec_digit d) = d"
  by (simp add: digit_val_def dec_digit_def)

lemma dec_nat_value: "foldl (\<lambda>a c. 10 * a + digit_val c) 0 (dec_nat n) = n"
proof (induction n rule: dec_nat.induct)
  case (1 n)
  show ?case
  proof (cases "n < 10")
    case True
    then show ?thesis by (subst dec_nat.simps) (simp add: digit_val_dec_digit)
  next
    case False
    with 1 show ?thesis by (subst dec_nat.simps) (simp add: digit_val_dec_digit)
  qed
qed

lemma dec_nat_inj: "dec_nat n = dec_nat m \<Longrightarrow> n = m"
  by (metis dec_nat_value)

lemma dec_nat_prefix:
  assumes "dec_nat n @ c # r = dec_nat m @ c' # r'" and "\<not> is_digit c" and "\<not> is_digit c'"
  shows "n = m \<and> c # r = c' # r'"
proof -
  have "takeWhile is_digit (dec_nat n @ c # r) = dec_nat n"
    using assms(2) dec_nat_digits [of n] by (simp add: takeWhile_tail)
  moreover have "takeWhile is_digit (dec_nat m @ c' # r') = dec_nat m"
    using assms(3) dec_nat_digits [of m] by (simp add: takeWhile_tail)
  ultimately have "dec_nat n = dec_nat m" using assms(1) by simp
  with assms(1) show ?thesis by (simp add: dec_nat_inj)
qed

lemma dec_nat_hd: "\<exists>h t. dec_nat n = h # t \<and> is_digit h"
  using dec_nat_nonempty [of n] dec_nat_digits [of n] by (cases "dec_nat n") auto


lemma json_value_null: "json_null v \<Longrightarrow> json_value v = ''null''"
  by (auto simp: json_null_def json_value_def json_number_def split: jsval.splits jsnum.splits)

lemma json_number_Fin_prefix:
  assumes "json_number (Fin i) @ CHR '']'' # r = json_number (Fin j) @ CHR '']'' # r'"
  shows "i = j \<and> r = r'"
proof -
  have nd: "\<not> is_digit CHR '']''" "\<not> is_digit CHR ''-''" by (simp_all add: is_digit_def)
  obtain h t where h: "dec_nat (nat i) = h # t" "is_digit h" using dec_nat_hd by blast
  obtain h' t' where h': "dec_nat (nat j) = h' # t'" "is_digit h'" using dec_nat_hd by blast
  consider "i < 0" "j < 0" | "i < 0" "\<not> j < 0" | "\<not> i < 0" "j < 0" | "\<not> i < 0" "\<not> j < 0"
    by blast
  then show ?thesis
  proof cases
    case 1
    with assms have "dec_nat (nat (- i)) @ CHR '']'' # r = dec_nat (nat (- j)) @ CHR '']'' # r'"
      by (simp add: json_number_def)
    from dec_nat_prefix [OF this nd(1) nd(1)] 1 show ?thesis by auto
  next
    case 2
    with assms h' nd show ?thesis by (auto simp: json_number_def)
  next
    case 3
    with assms h nd show ?thesis by (auto simp: json_number_def)
  next
    case 4
    with assms have "dec_nat (nat i) @ CHR '']'' # r = dec_nat (nat j) @ CHR '']'' # r'"
      by (simp add: json_number_def)
    from dec_nat_prefix [OF this nd(1) nd(1)] 4 show ?thesis by auto
  qed
qed

lemma json_value_cases:
  obtains (str) s where "v = Str s" "json_value v = json_string s" "\<not> json_null v"
  | (fin) i where "v = Num (Fin i)" "json_value v = json_number (Fin i)" "\<not> json_null v"
  | (null) "json_null v" "json_value v = ''null''"
  by (cases v rule: jsval.exhaust; cases "case v of Num n \<Rightarrow> n | _ \<Rightarrow> NaN")
     (auto simp: json_null_def json_value_def json_number_def)

lemma json_number_Fin_hd: "\<exists>h t. json_number (Fin i) = h # t \<and> (is_digit h \<or> h = CHR ''-'')"
  using dec_nat_hd [of "nat i"] by (auto simp: json_number_def)

lemma json_value_prefix:
  assumes "json_value v @ CHR '']'' # r = json_value w @ CHR '']'' # r'"
  shows "nullify v = nullify w \<and> r = r'"
proof -
  have nd: "\<not> is_digit CHR ''n''" "\<not> is_digit CHR 0x22" by (simp_all add: is_digit_def)
  show ?thesis
  proof (cases v rule: json_value_cases)
    case (str s)
    show ?thesis
    proof (cases w rule: json_value_cases)
      case (str t)
      with \<open>v = Str s\<close> \<open>json_value v = json_string s\<close> assms
      have "json_string s @ CHR '']'' # r = json_string t @ CHR '']'' # r'" by simp
      from json_string_prefix [OF this] str \<open>v = Str s\<close> show ?thesis by simp
    next
      case (fin j)
      obtain h t where "json_number (Fin j) = h # t" "is_digit h \<or> h = CHR ''-''"
        using json_number_Fin_hd by blast
      with fin str assms nd show ?thesis by (auto simp: json_string_def)
    next
      case null
      with str assms show ?thesis by (simp add: json_string_def)
    qed
  next
    case (fin i)
    obtain h t where hi: "json_number (Fin i) = h # t" "is_digit h \<or> h = CHR ''-''"
      using json_number_Fin_hd by blast
    show ?thesis
    proof (cases w rule: json_value_cases)
      case (str t)
      with fin hi assms nd show ?thesis by (auto simp: json_string_def)
    next
      case (fin j)
      with \<open>v = Num (Fin i)\<close> \<open>json_value v = json_number (Fin i)\<close> assms
      have "json_number (Fin i) @ CHR '']'' # r = json_number (Fin j) @ CHR '']'' # r'" by simp
      from json_number_Fin_prefix [OF this] fin \<open>v = Num (Fin i)\<close> show ?thesis by simp
    next
      case null
      with fin hi assms nd show ?thesis by auto
    qed
  next
    case null
    note nv = null
    show ?thesis
    proof (cases w rule: json_value_cases)
      case (str t)
      with nv assms show ?thesis by (simp add: json_string_def)
    next
      case (fin j)
      obtain h t where "json_number (Fin j) = h # t" "is_digit h \<or> h = CHR ''-''"
        using json_number_Fin_hd by blast
      with fin nv assms nd show ?thesis by auto
    next
      case null
      with nv assms show ?thesis by (simp add: nullify_def)
    qed
  qed
qed

lemma json_value_nullify: "json_value (nullify v) = json_value v"
  by (auto simp: nullify_def json_value_null) (simp add: json_value_def)

lemma json_entry_prefix:
  assumes "json_entry p @ r = json_entry q @ r'"
  shows "canon_entry p = canon_entry q \<and> r = r'"
proof -
  from assms have
    "json_string (fst p) @ (CHR '','' # json_value (snd p) @ CHR '']'' # r) =
     json_string (fst q) @ (CHR '','' # json_value (snd q) @ CHR '']'' # r')"
    by (simp add: json_entry_def json_array_def)
  from json_string_prefix [OF this]
  have k: "fst p = fst q"
    and "json_value (snd p) @ CHR '']'' # r = json_value (snd q) @ CHR '']'' # r'"
    by simp_all
  from json_value_prefix [OF this(2)] k show ?thesis by (simp add: canon_entry_def)
qed

lemma json_entry_hd: "\<exists>t. json_entry p = CHR ''['' # t"
  by (simp add: json_entry_def json_array_def)

lemma json_join_Cons:
  "json_join (x # xs) = x @ (if xs = [] then [] else CHR '','' # json_join xs)"
  by (cases xs) simp_all

lemma json_join_prefix:
  "json_join (map json_entry xs) @ CHR '']'' # r = json_join (map json_entry ys) @ CHR '']'' # r'
   \<Longrightarrow> map canon_entry xs = map canon_entry ys \<and> r = r'"
proof (induction xs arbitrary: ys)
  case Nil
  show ?case
  proof (cases ys)
    case Nil
    with Nil.prems show ?thesis by simp
  next
    case (Cons y ys')
    obtain t where "json_entry y = CHR ''['' # t" using json_entry_hd by blast
    with Nil.prems Cons show ?thesis by (simp add: json_join_Cons)
  qed
next
  case (Cons x xs)
  show ?case
  proof (cases ys)
    case Nil
    obtain t where "json_entry x = CHR ''['' # t" using json_entry_hd by blast
    with Cons.prems Nil show ?thesis by (simp add: json_join_Cons)
  next
    case (Cons y ys')
    let ?tx = "(if xs = [] then [] else CHR '','' # json_join (map json_entry xs)) @ CHR '']'' # r"
    let ?ty = "(if ys' = [] then [] else CHR '','' # json_join (map json_entry ys')) @ CHR '']'' # r'"
    from Cons.prems Cons have "json_entry x @ ?tx = json_entry y @ ?ty"
      by (simp add: json_join_Cons)
    from json_entry_prefix [OF this] have xy: "canon_entry x = canon_entry y" and t: "?tx = ?ty"
      by simp_all
    show ?thesis
    proof (cases "xs = []")
      case True
      with t have "ys' = []" by (auto split: if_splits)
      with True t xy Cons show ?thesis by simp
    next
      case False
      with t have ne: "ys' \<noteq> []" by (auto split: if_splits)
      with False t have
        "json_join (map json_entry xs) @ CHR '']'' # r =
         json_join (map json_entry ys') @ CHR '']'' # r'"
        by simp
      from Cons.IH [OF this] xy Cons show ?thesis by simp
    qed
  qed
qed

lemma json_entry_canon: "json_entry (canon_entry p) = json_entry p"
  by (simp add: json_entry_def canon_entry_def json_value_nullify)

lemma json_entries_eq_iff:
  "json_array (map json_entry xs) = json_array (map json_entry ys)
   \<longleftrightarrow> map canon_entry xs = map canon_entry ys"
proof
  assume "json_array (map json_entry xs) = json_array (map json_entry ys)"
  then have "json_join (map json_entry xs) @ CHR '']'' # [] =
             json_join (map json_entry ys) @ CHR '']'' # []"
    by (simp add: json_array_def)
  from json_join_prefix [OF this] show "map canon_entry xs = map canon_entry ys" by simp
next
  assume "map canon_entry xs = map canon_entry ys"
  then have "map json_entry (map canon_entry xs) = map json_entry (map canon_entry ys)" by simp
  then have "map json_entry xs = map json_entry ys"
    by (simp add: json_entry_canon cong: map_cong)
  then show "json_array (map json_entry xs) = json_array (map json_entry ys)" by simp
qed

lemma insert_sorted_insort:
  "insert_sorted (\<lambda>a b. localeCompare (fst a) (fst b)) x xs = insort_key fst x xs"
  by (induction xs) (auto simp: localeCompare_def)

lemma sort_with_sort_key:
  "sort_with (\<lambda>a b. localeCompare (fst a) (fst b)) xs = sort_key fst xs"
  by (induction xs) (simp_all add: sort_with_def insert_sorted_insort)

lemma getKey_sort_key:
  "getKey req = json_array (map json_entry (sort_key fst (omit req ''priority'')))"
  by (simp add: getKey_def sort_with_sort_key)

lemma fst_canon_entry: "fst \<circ> canon_entry = fst"
  by (auto simp: canon_entry_def)

lemma canon_sorted_unique:
  assumes dx: "distinct (map fst xs)" and dy: "distinct (map fst ys)"
    and sx: "sorted (map fst xs)" and sy: "sorted (map fst ys)"
    and eq: "canon_entry ` set xs = canon_entry ` set ys"
  shows "map canon_entry xs = map canon_entry ys"
proof -
  define cx where "cx = map canon_entry xs"
  define cy where "cy = map canon_entry ys"
  have fx: "map fst cx = map fst xs" and fy: "map fst cy = map fst ys"
    by (simp_all add: cx_def cy_def fst_canon_entry)
  have se: "set cx = set cy" using eq by (simp add: cx_def cy_def)
  have "inj_on fst (set cx)" using dx fx by (metis distinct_map)
  then have inj: "inj_on fst (set cx \<union> set cy)" using se by simp
  have "cx = cy"
  proof (rule map_sorted_distinct_set_unique [OF inj])
    show "sorted (map fst cx)" using sx fx by simp
    show "distinct (map fst cx)" using dx fx by simp
    show "sorted (map fst cy)" using sy fy by simp
    show "distinct (map fst cy)" using dy fy by simp
    show "set cx = set cy" by (rule se)
  qed
  then show ?thesis by (simp add: cx_def cy_def)
qed

lemma distinct_fst_sort_omit:
  assumes "distinct (map fst r)"
  shows "distinct (map fst (sort_key fst (omit r k)))"
proof -
  have "distinct (map fst (omit r k))"
    using assms by (simp add: omit_def distinct_map_filter)
  then show ?thesis by (simp add: distinct_map)
qed

lemma getKey_eq_iff:
  assumes "distinct (map fst r1)" and "distinct (map fst r2)"
  shows "getKey r1 = getKey r2 \<longleftrightarrow>
         canon_entry ` set (omit r1 ''priority'') = canon_entry ` set (omit r2 ''priority'')"
proof -
  let ?x = "sort_key fst (omit r1 ''priority'')" and ?y = "sort_key fst (omit r2 ''priority'')"
  have dx: "distinct (map fst ?x)" and dy: "distinct (map fst ?y)"
    using assms by (simp_all only: distinct_fst_sort_omit)
  have sx: "sorted (map fst ?x)" and sy: "sorted (map fst ?y)" by simp_all
  have "getKey r1 = getKey r2 \<longleftrightarrow> map canon_entry ?x = map canon_entry ?y"
    by (simp add: getKey_sort_key json_entries_eq_iff)
  also have "\<dots> \<longleftrightarrow> canon_entry ` set ?x = canon_entry ` set ?y"
  proof
    assume "map canon_entry ?x = map canon_entry ?y"
    then have "set (map canon_entry ?x) = set (map canon_entry ?y)" by simp
    then show "canon_entry ` set ?x = canon_entry ` set ?y" by simp
  next
    assume "canon_entry ` set ?x = canon_entry ` set ?y"
    from canon_sorted_unique [OF dx dy sx sy this]
    show "map canon_entry ?x = map canon_entry ?y" .
  qed
  finally show ?thesis by simp
qed

section \<open>The operations, case by case\<close>

lemma map_of_delete_same: "map_of (AList.delete k al) k = None"
  by (simp add: delete_conv)

lemma delete_absent: "map_of al k = None \<Longrightarrow> AList.delete k al = al"
  by (simp add: map_of_eq_None_iff)

lemma preempt_absent:
  "map_of (cache s) (getKey req) = None \<Longrightarrow> preempt s req isRefetch = s"
  by (simp add: preempt_def)

lemma preempt_settled:
  assumes "map_of (cache s) (getKey req) = Some e" and "status e \<noteq> Pending"
    and "isRefetch \<longrightarrow> next' e = None"
  shows "preempt s req isRefetch = s"
  using assms by (auto simp: preempt_def preempt_pending_def Let_def)

lemma admit_present_read:
  "map_of (cache s) (getKey req) = Some e \<Longrightarrow> admit s req False = (e, s)"
  by (simp add: admit_def)

lemma admit_absent:
  assumes "map_of (cache s) (getKey req) = None"
  shows "admit s req isRefetch =
         (\<lparr>status = Pending, value' = Promise (length (tasks s)), next' = None, args = req\<rparr>,
          s\<lparr>cache := AList.update (getKey req)
                 \<lparr>status = Pending, value' = Promise (length (tasks s)), next' = None,
                  args = req\<rparr> (cache s),
            tasks := tasks s @ [new_attempt req]\<rparr>)"
  using assms by (simp add: admit_def Let_def)

lemma admit_refetch:
  assumes "map_of (cache s) (getKey req) = Some e" and "status e \<noteq> Pending"
  shows "admit s req True =
         (e\<lparr>args := req, next' := Some (length (tasks s))\<rparr>,
          s\<lparr>cache := AList.update (getKey req)
                 (e\<lparr>args := req, next' := Some (length (tasks s))\<rparr>) (cache s),
            tasks := tasks s @ [new_attempt req]\<rparr>)"
  using assms by (simp add: admit_def Let_def)

lemma startLoading_settled_read:
  assumes "map_of (cache s) (getKey req) = Some e" and "status e \<noteq> Pending"
  shows "startLoading s req False = (e, s)"
  using assms by (simp add: startLoading_def preempt_settled admit_present_read)

lemma startLoading_refetch:
  assumes "map_of (cache s) (getKey req) = Some e" and "status e \<noteq> Pending"
    and "next' e = None"
  shows "startLoading s req True =
         (e\<lparr>args := req, next' := Some (length (tasks s))\<rparr>,
          s\<lparr>cache := AList.update (getKey req)
                 (e\<lparr>args := req, next' := Some (length (tasks s))\<rparr>) (cache s),
            tasks := tasks s @ [new_attempt req]\<rparr>)"
  using assms by (simp add: startLoading_def preempt_settled admit_refetch)

lemma read_resolved:
  assumes "map_of (cache s) (getKey req) = Some e" and "status e = Resolved"
  shows "read s req = (Inr (value' e), s)"
  using assms by (simp add: read_def startLoading_settled_read)

lemma read_rejected:
  assumes "map_of (cache s) (getKey req) = Some e" and "status e = Rejected"
  shows "read s req = (Inl (value' e), s)"
  using assms by (simp add: read_def startLoading_settled_read)

lemma preload_rejected:
  assumes "map_of (cache s) (getKey req) = Some e" and "status e = Rejected"
  shows "preload s req = (Throw (value' e), s)"
  using assms by (simp add: preload_def startLoading_settled_read)

lemma invalidate_refresh:
  assumes "0 < listenerCount s (getKey req)"
    and "map_of (cache s) (getKey req) = Some e" and "status e \<noteq> Pending"
    and "next' e = None"
  shows "invalidate s req =
         s\<lparr>cache := AList.update (getKey req)
                (e\<lparr>args := req, next' := Some (length (tasks s))\<rparr>) (cache s),
           tasks := tasks s @ [new_attempt req]\<rparr>"
  using assms by (simp add: invalidate_def startLoading_refetch)

lemma invalidate_delete:
  assumes "\<not> refreshable s req"
  shows "invalidate s req =
         s\<lparr>cache := AList.delete (getKey req) (cache s),
           emitted := emitted s @ [getKey req, ''any'']\<rparr>"
  using assms by (auto simp: invalidate_def refreshable_def emit_def Let_def)

lemma settle_present:
  assumes "map_of (cache s) (getKey (meta (tasks s ! h))) = Some e"
  shows "settle s h out =
         s\<lparr>tasks := (tasks s)[h := (tasks s ! h)\<lparr>finished := True\<rparr>],
           cache := AList.update (getKey (meta (tasks s ! h)))
             ((case out of
                 Fulfilled data \<Rightarrow> e\<lparr>status := Resolved, value' := Data data\<rparr>
               | Failed err \<Rightarrow> e\<lparr>status := Rejected, value' := Failure (UseAsyncError err)\<rparr>)
              \<lparr>next' := None\<rparr>) (cache s),
           emitted := emitted s @ [getKey (meta (tasks s ! h)), ''any'']\<rparr>"
  using assms by (simp add: settle_def Let_def emit_def)

lemma settle_absent:
  assumes "map_of (cache s) (getKey (meta (tasks s ! h))) = None"
  shows "settle s h out = s\<lparr>tasks := (tasks s)[h := (tasks s ! h)\<lparr>finished := True\<rparr>]\<rparr>"
  using assms by (simp add: settle_def Let_def)

lemma run_body_aborted:
  "aborted (tasks s ! h) \<Longrightarrow>
   run_body s h = s\<lparr>tasks := (tasks s)[h := (tasks s ! h)\<lparr>finished := True\<rparr>]\<rparr>"
  by (simp add: run_body_def Let_def)

lemma run_body_fetch:
  "\<not> aborted (tasks s ! h) \<Longrightarrow>
   run_body s h = s\<lparr>tasks := (tasks s)[h := (tasks s ! h)\<lparr>started := True\<rparr>],
                    fetched := fetched s @ [meta (tasks s ! h)]\<rparr>"
  by (simp add: run_body_def Let_def)

section \<open>What holds of every entry in every reachable state\<close>

lemma abort_unstarted:
  "\<not> started (tasks s ! h) \<Longrightarrow>
   abort_task s h = (True, s\<lparr>tasks := (tasks s)[h := (tasks s ! h)\<lparr>aborted := True\<rparr>]\<rparr>)"
  by (simp add: abort_task_def abort_def Let_def)

lemma abort_started:
  "started (tasks s ! h) \<Longrightarrow> abort_task s h = (aborted (tasks s ! h), s)"
  by (simp add: abort_task_def abort_def Let_def)

lemma abort_task_cases:
  obtains (failed) "abort_task s h = (False, s)"
      and "started (tasks s ! h)" and "\<not> aborted (tasks s ! h)"
  | (ok) "abort_task s h = (True, s\<lparr>tasks := (tasks s)[h := (tasks s ! h)\<lparr>aborted := True\<rparr>]\<rparr>)"
      and "\<not> started (tasks s ! h) \<or> aborted (tasks s ! h)"
proof (cases "started (tasks s ! h)")
  case False
  with abort_unstarted [of s h] show ?thesis using ok by blast
next
  case True
  note st = this
  show ?thesis
  proof (cases "aborted (tasks s ! h)")
    case False
    with st abort_started [of s h] show ?thesis using failed by simp
  next
    case True
    then have "(tasks s ! h)\<lparr>aborted := True\<rparr> = tasks s ! h" by simp
    then have "s\<lparr>tasks := (tasks s)[h := (tasks s ! h)\<lparr>aborted := True\<rparr>]\<rparr> = s" by simp
    with st True abort_started [of s h] show ?thesis using ok by simp
  qed
qed

lemma entry_ok_refs:
  assumes "entry_ok ts k e" and "h \<in> refs e"
  shows "h < length ts \<and> getKey (meta (ts ! h)) = k \<and> meta (ts ! h) = args e \<and> live (ts ! h)"
  using assms
  by (auto simp: entry_ok_def refs_def split: option.splits slot.splits if_splits)

lemma nth_update_cases:
  "i < length ts \<Longrightarrow> (ts[h := a]) ! i = (if i = h then a else ts ! i)"
  by (auto simp: nth_list_update)

lemma entry_ok_list_update_unref:
  assumes "entry_ok ts k e" and "h \<notin> refs e"
  shows "entry_ok (ts[h := a]) k e"
  using assms
  by (auto simp: entry_ok_def refs_def nth_update_cases split: option.splits slot.splits if_splits)

lemma entry_ok_list_update_same:
  assumes "entry_ok ts k e" and "meta a = meta (ts ! h)" and "live a = live (ts ! h)"
  shows "entry_ok (ts[h := a]) k e"
  using assms
  by (auto simp: entry_ok_def nth_update_cases split: option.splits slot.splits)

lemma entry_ok_list_update:
  assumes "entry_ok ts k e"
    and "h \<notin> refs e \<or> (meta a = meta (ts ! h) \<and> live a = live (ts ! h))"
  shows "entry_ok (ts[h := a]) k e"
  using assms entry_ok_list_update_unref entry_ok_list_update_same by blast

lemma entry_ok_append:
  assumes "entry_ok ts k e"
  shows "entry_ok (ts @ [a]) k e"
  using assms
  by (auto simp: entry_ok_def nth_append split: option.splits slot.splits)

lemma cache_ok_other_key:
  assumes "cache_ok ts c" and "map_of c k = Some e" and "getKey (meta (ts ! h)) \<noteq> k"
  shows "h \<notin> refs e"
  using assms entry_ok_refs unfolding cache_ok_def by blast

lemma cache_ok_not_live:
  assumes "cache_ok ts c" and "map_of c k = Some e" and "\<not> live (ts ! h)"
  shows "h \<notin> refs e"
  using assms entry_ok_refs unfolding cache_ok_def by blast

lemma cache_ok_append:
  "cache_ok ts c \<Longrightarrow> cache_ok (ts @ [a]) c"
  unfolding cache_ok_def using entry_ok_append by blast

lemma cache_ok_update:
  assumes "cache_ok ts c" and "entry_ok ts k e"
  shows "cache_ok ts (AList.update k e c)"
  using assms by (auto simp: cache_ok_def update_conv')

lemma cache_ok_delete:
  assumes "cache_ok ts c"
  shows "cache_ok ts (AList.delete k c)"
  using assms by (auto simp: cache_ok_def delete_conv')

lemma cache_ok_same_meta:
  assumes "cache_ok ts c" and "meta a = meta (ts ! h)" and "live a = live (ts ! h)"
  shows "cache_ok (ts[h := a]) c"
  using assms entry_ok_list_update unfolding cache_ok_def by blast

lemma cache_ok_dead:
  assumes "cache_ok ts c" and "\<not> live (ts ! h)"
  shows "cache_ok (ts[h := a]) c"
  unfolding cache_ok_def
proof (intro allI impI)
  fix k e assume m: "map_of c k = Some e"
  from cache_ok_not_live [OF assms(1) m assms(2)] have "h \<notin> refs e" .
  moreover from assms(1) m have "entry_ok ts k e" by (simp add: cache_ok_def)
  ultimately show "entry_ok (ts[h := a]) k e" using entry_ok_list_update by blast
qed

text \<open>Changing an attempt and removing or replacing the entry under its fingerprint.\<close>

lemma cache_ok_retire_delete:
  assumes "cache_ok ts c"
  shows "cache_ok (ts[h := a]) (AList.delete (getKey (meta (ts ! h))) c)"
  unfolding cache_ok_def
proof (intro allI impI)
  fix k e assume "map_of (AList.delete (getKey (meta (ts ! h))) c) k = Some e"
  then have m: "map_of c k = Some e" and ne: "getKey (meta (ts ! h)) \<noteq> k"
    by (auto simp: delete_conv' split: if_splits)
  from cache_ok_other_key [OF assms m ne] have "h \<notin> refs e" .
  moreover from assms m have "entry_ok ts k e" by (simp add: cache_ok_def)
  ultimately show "entry_ok (ts[h := a]) k e" using entry_ok_list_update by blast
qed

lemma cache_ok_retire_update:
  assumes "cache_ok ts c" and "entry_ok (ts[h := a]) (getKey (meta (ts ! h))) e'"
  shows "cache_ok (ts[h := a]) (AList.update (getKey (meta (ts ! h))) e' c)"
  unfolding cache_ok_def
proof (intro allI impI)
  fix k e assume u: "map_of (AList.update (getKey (meta (ts ! h))) e' c) k = Some e"
  show "entry_ok (ts[h := a]) k e"
  proof (cases "k = getKey (meta (ts ! h))")
    case True
    with u assms(2) show ?thesis by (simp add: update_conv')
  next
    case False
    with u have m: "map_of c k = Some e" by (simp add: update_conv')
    from False have ne: "getKey (meta (ts ! h)) \<noteq> k" by simp
    from cache_ok_other_key [OF assms(1) m ne] have "h \<notin> refs e" .
    moreover from assms(1) m have "entry_ok ts k e" by (simp add: cache_ok_def)
    ultimately show ?thesis using entry_ok_list_update by blast
  qed
qed

lemma entry_ok_settled:
  assumes "getKey (args e) = k" and "status e \<noteq> Pending" and "next' e = None"
  shows "entry_ok ts k e"
  using assms by (simp add: entry_ok_def)

lemma tokens_list_update:
  assumes "\<forall>a \<in> set ts. started a \<longrightarrow> \<not> aborted a" and "started a' \<longrightarrow> \<not> aborted a'"
  shows "\<forall>a \<in> set (ts[h := a']). started a \<longrightarrow> \<not> aborted a"
  using assms by (metis insert_iff set_update_subset_insert subsetD)

lemma tokens_abort:
  assumes tk: "\<forall>a \<in> set ts. started a \<longrightarrow> \<not> aborted a"
    and t: "\<not> started (ts ! h) \<or> aborted (ts ! h)"
  shows "\<forall>a \<in> set (ts[h := (ts ! h)\<lparr>aborted := True\<rparr>]). started a \<longrightarrow> \<not> aborted a"
proof (cases "h < length ts")
  case True
  then have "ts ! h \<in> set ts" by simp
  with tk t have "\<not> started (ts ! h)" by blast
  then have "started ((ts ! h)\<lparr>aborted := True\<rparr>) \<longrightarrow> \<not> aborted ((ts ! h)\<lparr>aborted := True\<rparr>)"
    by simp
  from tokens_list_update [OF tk this] show ?thesis .
next
  case False
  then have "ts[h := (ts ! h)\<lparr>aborted := True\<rparr>] = ts" by (simp add: list_update_beyond)
  with tk show ?thesis by simp
qed

lemma consistentI:
  assumes "cache_ok (tasks s) (cache s)" and "\<forall>a \<in> set (tasks s). started a \<longrightarrow> \<not> aborted a"
  shows "consistent s"
  using assms by (simp add: consistent_def)

lemma consistent_entry:
  assumes "consistent s" and "map_of (cache s) k = Some e"
  shows "entry_ok (tasks s) k e"
  using assms by (simp add: consistent_def cache_ok_def)

lemma consistent_init: "consistent init"
  by (simp add: consistent_def cache_ok_def init_def)

lemma entry_ok_pending:
  assumes "entry_ok ts k e" and "status e = Pending"
  obtains h where "value' e = Promise h" and "next' e = None" and "h < length ts"
    and "meta (ts ! h) = args e" and "getKey (meta (ts ! h)) = k" and "live (ts ! h)"
  using assms by (auto simp: entry_ok_def split: option.splits slot.splits)

lemma entry_ok_next:
  assumes "entry_ok ts k e" and "next' e = Some h"
  shows "status e \<noteq> Pending \<and> h < length ts \<and> meta (ts ! h) = args e \<and>
         getKey (meta (ts ! h)) = k \<and> live (ts ! h)"
  using assms by (auto simp: entry_ok_def)

lemma consistent_abort_delete:
  assumes c: "consistent s" and k: "getKey (meta (tasks s ! h)) = key"
    and t: "\<not> started (tasks s ! h) \<or> aborted (tasks s ! h)"
  shows "consistent (s\<lparr>tasks := (tasks s)[h := (tasks s ! h)\<lparr>aborted := True\<rparr>],
                      cache := AList.delete key (cache s)\<rparr>)"
proof (rule consistentI)
  from c have "cache_ok (tasks s) (cache s)" by (simp add: consistent_def)
  from cache_ok_retire_delete [OF this, of h] k
  show "cache_ok (tasks (s\<lparr>tasks := (tasks s)[h := (tasks s ! h)\<lparr>aborted := True\<rparr>],
                          cache := AList.delete key (cache s)\<rparr>))
          (cache (s\<lparr>tasks := (tasks s)[h := (tasks s ! h)\<lparr>aborted := True\<rparr>],
                    cache := AList.delete key (cache s)\<rparr>))"
    by simp
next
  from c have tk: "\<forall>a \<in> set (tasks s). started a \<longrightarrow> \<not> aborted a"
    by (simp add: consistent_def)
  from tokens_abort [OF tk t] show "\<forall>a \<in> set (tasks (s\<lparr>tasks := (tasks s)[h := (tasks s ! h)\<lparr>aborted := True\<rparr>],
                                  cache := AList.delete key (cache s)\<rparr>)). started a \<longrightarrow> \<not> aborted a"
    by simp
qed

lemma consistent_abort_update:
  assumes c: "consistent s" and k: "getKey (meta (tasks s ! h)) = key"
    and t: "\<not> started (tasks s ! h) \<or> aborted (tasks s ! h)"
    and e: "getKey (args e') = key" "status e' \<noteq> Pending" "next' e' = None"
  shows "consistent (s\<lparr>tasks := (tasks s)[h := (tasks s ! h)\<lparr>aborted := True\<rparr>],
                      cache := AList.update key e' (cache s)\<rparr>)"
proof (rule consistentI)
  from c have "cache_ok (tasks s) (cache s)" by (simp add: consistent_def)
  from cache_ok_retire_update [OF this, of h _ e'] k entry_ok_settled [OF e]
  show "cache_ok (tasks (s\<lparr>tasks := (tasks s)[h := (tasks s ! h)\<lparr>aborted := True\<rparr>],
                          cache := AList.update key e' (cache s)\<rparr>))
          (cache (s\<lparr>tasks := (tasks s)[h := (tasks s ! h)\<lparr>aborted := True\<rparr>],
                    cache := AList.update key e' (cache s)\<rparr>))"
    by simp
next
  from c have tk: "\<forall>a \<in> set (tasks s). started a \<longrightarrow> \<not> aborted a"
    by (simp add: consistent_def)
  from tokens_abort [OF tk t] show "\<forall>a \<in> set (tasks (s\<lparr>tasks := (tasks s)[h := (tasks s ! h)\<lparr>aborted := True\<rparr>],
                                  cache := AList.update key e' (cache s)\<rparr>)). started a \<longrightarrow> \<not> aborted a"
    by simp
qed

lemma preempt_pending_unfold:
  assumes "entry_ok (tasks s) key ex"
  shows "preempt_pending s key ex =
         (if status ex = Pending then
            (case value' ex of
               Promise h \<Rightarrow>
                 (if started (tasks s ! h) then s
                  else s\<lparr>tasks := (tasks s)[h := (tasks s ! h)\<lparr>aborted := True\<rparr>],
                         cache := AList.delete key (cache s)\<rparr>)
             | _ \<Rightarrow> s)
          else s)"
proof (cases "status ex = Pending")
  case False
  then show ?thesis by (simp add: preempt_pending_def)
next
  case True
  from entry_ok_pending [OF assms True] obtain h where
    h: "value' ex = Promise h" "live (tasks s ! h)" by blast
  show ?thesis
  proof (cases "started (tasks s ! h)")
    case False
    with True h abort_unstarted [of s h] show ?thesis
      by (simp add: preempt_pending_def)
  next
    case st: True
    from h have "\<not> aborted (tasks s ! h)" by (simp add: live_def)
    with st True h abort_started [of s h] show ?thesis
      by (simp add: preempt_pending_def)
  qed
qed

lemma consistent_preempt_pending:
  assumes c: "consistent s" and m: "map_of (cache s) key = Some ex"
  shows "consistent (preempt_pending s key ex)"
proof -
  from consistent_entry [OF c m] have ok: "entry_ok (tasks s) key ex" .
  show ?thesis
  proof (cases "status ex = Pending")
    case False
    with c show ?thesis by (simp add: preempt_pending_unfold [OF ok])
  next
    case True
    from entry_ok_pending [OF ok True] obtain h where
      h: "value' ex = Promise h" "getKey (meta (tasks s ! h)) = key" by blast
    show ?thesis
    proof (cases "started (tasks s ! h)")
      case st: True
      with c True h show ?thesis by (simp add: preempt_pending_unfold [OF ok])
    next
      case False
      then have "\<not> started (tasks s ! h) \<or> aborted (tasks s ! h)" by simp
      from consistent_abort_delete [OF c h(2) this] True h False show ?thesis
        by (simp add: preempt_pending_unfold [OF ok])
    qed
  qed
qed

lemma preempt_unfold:
  assumes "consistent s"
  shows "preempt s req isRefetch =
     (case map_of (cache s) (getKey req) of
        None \<Rightarrow> s
      | Some ex \<Rightarrow>
          if num_less (priority_or_0 (args ex)) (priority_or_0 req) then
            (case (if isRefetch then next' ex else None) of
               Some h \<Rightarrow>
                 (if started (tasks s ! h) then s
                  else s\<lparr>tasks := (tasks s)[h := (tasks s ! h)\<lparr>aborted := True\<rparr>],
                         cache := AList.update (getKey req) (ex\<lparr>next' := None\<rparr>) (cache s)\<rparr>)
             | None \<Rightarrow> preempt_pending s (getKey req) ex)
          else s)"
proof (cases "map_of (cache s) (getKey req)")
  case None
  then show ?thesis by (simp add: preempt_def)
next
  case (Some ex)
  from consistent_entry [OF assms Some] have ok: "entry_ok (tasks s) (getKey req) ex" .
  show ?thesis
  proof (cases "if isRefetch then next' ex else None")
    case None
    with Some show ?thesis by (simp add: preempt_def)
  next
    case (Some h)
    then have n: "next' ex = Some h" and r: "isRefetch" by (auto split: if_splits)
    from entry_ok_next [OF ok n] have np: "status ex \<noteq> Pending" and l: "live (tasks s ! h)"
      by blast+
    show ?thesis
    proof (cases "started (tasks s ! h)")
      case False
      with \<open>map_of (cache s) (getKey req) = Some ex\<close> n r abort_unstarted [of s h] show ?thesis
        by (simp add: preempt_def)
    next
      case True
      from l have "\<not> aborted (tasks s ! h)" by (simp add: live_def)
      with True \<open>map_of (cache s) (getKey req) = Some ex\<close> n r np abort_started [of s h]
      show ?thesis by (simp add: preempt_def preempt_pending_def)
    qed
  qed
qed

lemma consistent_preempt:
  assumes c: "consistent s"
  shows "consistent (preempt s req isRefetch)"
proof (cases "map_of (cache s) (getKey req)")
  case None
  with c show ?thesis by (simp add: preempt_unfold)
next
  case (Some ex)
  from consistent_entry [OF c Some] have ok: "entry_ok (tasks s) (getKey req) ex" .
  show ?thesis
  proof (cases "num_less (priority_or_0 (args ex)) (priority_or_0 req)")
    case False
    with c Some show ?thesis by (simp add: preempt_unfold)
  next
    case True
    note lt = this
    show ?thesis
    proof (cases "if isRefetch then next' ex else None")
      case None
      with c Some lt consistent_preempt_pending [OF c Some] show ?thesis
        by (simp add: preempt_unfold)
    next
      case (Some h)
      then have n: "next' ex = Some h" and r: "isRefetch" by (auto split: if_splits)
      from entry_ok_next [OF ok n] have np: "status ex \<noteq> Pending"
        and k: "getKey (meta (tasks s ! h)) = getKey req" by blast+
      from ok have ka: "getKey (args ex) = getKey req" by (simp add: entry_ok_def)
      show ?thesis
      proof (cases "started (tasks s ! h)")
        case True
        with c \<open>map_of (cache s) (getKey req) = Some ex\<close> lt n r show ?thesis
          by (simp add: preempt_unfold)
      next
        case False
        then have t: "\<not> started (tasks s ! h) \<or> aborted (tasks s ! h)" by simp
        from consistent_abort_update [OF c k t, of "ex\<lparr>next' := None\<rparr>"] ka np
        have "consistent (s\<lparr>tasks := (tasks s)[h := (tasks s ! h)\<lparr>aborted := True\<rparr>],
                 cache := AList.update (getKey req) (ex\<lparr>next' := None\<rparr>) (cache s)\<rparr>)"
          by simp
        with c \<open>map_of (cache s) (getKey req) = Some ex\<close> lt n r False show ?thesis
          by (simp add: preempt_unfold)
      qed
    qed
  qed
qed

lemma consistent_cong:
  "tasks s' = tasks s \<Longrightarrow> cache s' = cache s \<Longrightarrow> consistent s' = consistent s"
  by (simp add: consistent_def)

lemma tokens_same_flags:
  assumes tk: "\<forall>a \<in> set ts. started a \<longrightarrow> \<not> aborted a"
    and a: "h < length ts \<longrightarrow> (started a' \<longrightarrow> \<not> aborted a')"
  shows "\<forall>a \<in> set (ts[h := a']). started a \<longrightarrow> \<not> aborted a"
proof (cases "h < length ts")
  case True
  with a tokens_list_update [OF tk] show ?thesis by blast
next
  case False
  then have "ts[h := a'] = ts" by (simp add: list_update_beyond)
  with tk show ?thesis by simp
qed

lemma consistent_admit:
  assumes c: "consistent s"
  shows "consistent (snd (admit s req isRefetch))"
proof -
  from c have co: "cache_ok (tasks s) (cache s)"
    and tk: "\<forall>a \<in> set (tasks s). started a \<longrightarrow> \<not> aborted a"
    by (simp_all add: consistent_def)
  have tk': "\<forall>a \<in> set (tasks s @ [new_attempt req]). started a \<longrightarrow> \<not> aborted a"
    using tk by (simp add: new_attempt_def)
  have co': "cache_ok (tasks s @ [new_attempt req]) (cache s)"
    by (rule cache_ok_append [OF co])
  show ?thesis
  proof (cases "map_of (cache s) (getKey req)")
    case None
    have "entry_ok (tasks s @ [new_attempt req]) (getKey req)
            \<lparr>status = Pending, value' = Promise (length (tasks s)), next' = None, args = req\<rparr>"
      by (simp add: entry_ok_def new_attempt_def live_def)
    from cache_ok_update [OF co' this] tk' None show ?thesis
      by (simp add: admit_absent consistent_def)
  next
    case (Some ex)
    show ?thesis
    proof (cases "isRefetch \<and> status ex \<noteq> Pending")
      case False
      with Some c show ?thesis by (auto simp: admit_def)
    next
      case True
      then have "entry_ok (tasks s @ [new_attempt req]) (getKey req)
              (ex\<lparr>args := req, next' := Some (length (tasks s))\<rparr>)"
        by (simp add: entry_ok_def new_attempt_def live_def)
      from cache_ok_update [OF co' this] tk' Some True show ?thesis
        by (simp add: admit_refetch consistent_def)
    qed
  qed
qed

lemma consistent_startLoading:
  "consistent s \<Longrightarrow> consistent (snd (startLoading s req isRefetch))"
  by (simp add: startLoading_def consistent_admit consistent_preempt)

lemma consistent_run_body:
  assumes c: "consistent s"
  shows "consistent (run_body s h)"
proof -
  from c have co: "cache_ok (tasks s) (cache s)"
    and tk: "\<forall>a \<in> set (tasks s). started a \<longrightarrow> \<not> aborted a"
    by (simp_all add: consistent_def)
  show ?thesis
  proof (cases "aborted (tasks s ! h)")
    case True
    then have "\<not> live (tasks s ! h)" by (simp add: live_def)
    from cache_ok_dead [OF co this]
    have "cache_ok ((tasks s)[h := (tasks s ! h)\<lparr>finished := True\<rparr>]) (cache s)" .
    moreover have "\<forall>a \<in> set ((tasks s)[h := (tasks s ! h)\<lparr>finished := True\<rparr>]).
                     started a \<longrightarrow> \<not> aborted a"
      using tk by (intro tokens_same_flags) auto
    ultimately show ?thesis using True by (simp add: run_body_aborted consistent_def)
  next
    case False
    have "cache_ok ((tasks s)[h := (tasks s ! h)\<lparr>started := True\<rparr>]) (cache s)"
      by (rule cache_ok_same_meta [OF co]) (simp_all add: live_def)
    moreover have "\<forall>a \<in> set ((tasks s)[h := (tasks s ! h)\<lparr>started := True\<rparr>]).
                     started a \<longrightarrow> \<not> aborted a"
      using tk False by (intro tokens_same_flags) auto
    ultimately show ?thesis using False by (simp add: run_body_fetch consistent_def)
  qed
qed

lemma consistent_settle:
  assumes c: "consistent s"
  shows "consistent (settle s h out)"
proof -
  from c have co: "cache_ok (tasks s) (cache s)"
    and tk: "\<forall>a \<in> set (tasks s). started a \<longrightarrow> \<not> aborted a"
    by (simp_all add: consistent_def)
  let ?ts = "(tasks s)[h := (tasks s ! h)\<lparr>finished := True\<rparr>]"
  let ?k = "getKey (meta (tasks s ! h))"
  have tk': "\<forall>a \<in> set ?ts. started a \<longrightarrow> \<not> aborted a"
    using tk by (intro tokens_same_flags) auto
  show ?thesis
  proof (cases "map_of (cache s) ?k")
    case None
    from cache_ok_retire_delete [OF co, of h] None
    have "cache_ok ?ts (cache s)" by (simp add: delete_absent)
    with tk' None show ?thesis by (simp add: settle_absent consistent_def)
  next
    case (Some e)
    from co Some have "getKey (args e) = ?k" by (simp add: cache_ok_def entry_ok_def)
    then have "entry_ok ?ts ?k
        ((case out of
            Fulfilled data \<Rightarrow> e\<lparr>status := Resolved, value' := Data data\<rparr>
          | Failed err \<Rightarrow> e\<lparr>status := Rejected, value' := Failure (UseAsyncError err)\<rparr>)
         \<lparr>next' := None\<rparr>)"
      by (intro entry_ok_settled) (simp_all split: outcome.splits)
    from cache_ok_retire_update [OF co this] tk' Some show ?thesis
      by (simp add: settle_present consistent_def)
  qed
qed

lemma consistent_invalidate:
  assumes c: "consistent s"
  shows "consistent (invalidate s req)"
proof (cases "refreshable s req")
  case True
  then have "invalidate s req = snd (startLoading s req True)"
    by (simp add: invalidate_def refreshable_def)
  with consistent_startLoading [OF c] show ?thesis by simp
next
  case False
  from c have "cache_ok (tasks s) (AList.delete (getKey req) (cache s))"
    by (simp add: consistent_def cache_ok_delete)
  with c False show ?thesis by (simp add: invalidate_delete consistent_def)
qed

lemma consistent_invalidate_fold:
  "consistent s \<Longrightarrow>
   consistent (fold (\<lambda>e s'. if P e then invalidate s' (args e) else s') es s)"
  by (induction es arbitrary: s) (simp_all add: consistent_invalidate)

lemma consistent_step:
  assumes c: "consistent s"
  shows "consistent (step s ev)"
proof (cases ev)
  case (Read req)
  then have "step s ev = snd (startLoading s req False)"
    by (simp add: read_def split: prod.splits)
  with consistent_startLoading [OF c] show ?thesis by simp
next
  case (Preload req)
  then have "step s ev = snd (startLoading s req False)"
    by (simp add: preload_def split: prod.splits)
  with consistent_startLoading [OF c] show ?thesis by simp
next
  case (Invalidate req)
  with consistent_invalidate [OF c] show ?thesis by simp
next
  case (InvalidateAll onlyRejected)
  with consistent_invalidate_fold [OF c] show ?thesis by (simp add: invalidateAll_def)
next
  case (On t cb)
  with c show ?thesis by (simp add: on_def emitter_on_def consistent_def)
next
  case (Off t cb)
  with c show ?thesis by (simp add: off_def emitter_off_def consistent_def)
next
  case (Start h)
  with c consistent_run_body [OF c] show ?thesis by simp
next
  case (Settle h out)
  with c consistent_settle [OF c] show ?thesis by simp
qed

lemma consistent_run: "consistent s \<Longrightarrow> consistent (run s es)"
  unfolding run_def by (induction es arbitrary: s) (simp_all add: consistent_step)

lemma consistent_reachable: "consistent (run init es)"
  by (rule consistent_run [OF consistent_init])

section \<open>Attempts in flight on quiet runs\<close>

lemma refs_unique:
  assumes "entry_ok ts k e" and "h \<in> refs e" and "h' \<in> refs e"
  shows "h = h'"
  using assms
  by (auto simp: entry_ok_def refs_def split: option.splits slot.splits if_splits)

lemma refs_pending:
  "status e = Pending \<Longrightarrow> value' e = Promise h \<Longrightarrow> next' e = None \<Longrightarrow> refs e = {h}"
  by (simp add: refs_def)

lemma refs_settled:
  "status e \<noteq> Pending \<Longrightarrow> refs e = set_option (next' e)"
  by (simp add: refs_def split: slot.splits)

lemma idle_iff:
  "idle s k \<longleftrightarrow>
   (\<forall>h < length (tasks s). live (tasks s ! h) \<longrightarrow> getKey (meta (tasks s ! h)) \<noteq> k)"
  by (auto simp: idle_def list_all_length)

lemma attached_idle:
  assumes a: "attached s" and r: "\<forall>e. map_of (cache s) k = Some e \<longrightarrow> refs e = {}"
  shows "idle s k"
  unfolding idle_iff
proof (intro allI impI)
  fix h assume "h < length (tasks s)" and "live (tasks s ! h)"
  with a obtain e where "map_of (cache s) (getKey (meta (tasks s ! h))) = Some e" "h \<in> refs e"
    unfolding attached_def by blast
  with r show "getKey (meta (tasks s ! h)) \<noteq> k" by auto
qed

lemma attachedI:
  assumes "\<And>h. h < length (tasks s) \<Longrightarrow> live (tasks s ! h) \<Longrightarrow>
             \<exists>e. map_of (cache s) (getKey (meta (tasks s ! h))) = Some e \<and> h \<in> refs e"
  shows "attached s"
  using assms unfolding attached_def by blast

lemma attachedD:
  assumes "attached s" and "h < length (tasks s)" and "live (tasks s ! h)"
  obtains e where "map_of (cache s) (getKey (meta (tasks s ! h))) = Some e" and "h \<in> refs e"
  using assms unfolding attached_def by blast

text \<open>
  An attempt that an entry refers to stops being in flight, and the entry is deleted
  or replaced by one that refers to no attempt.
\<close>

lemma attached_retire:
  assumes c: "consistent s" and a: "attached s"
    and m: "map_of (cache s) key = Some ex" and r: "h \<in> refs ex"
    and nl: "\<not> live a'"
    and t': "tasks s' = (tasks s)[h := a']"
    and c': "\<forall>k. k \<noteq> key \<longrightarrow> map_of (cache s') k = map_of (cache s) k"
  shows "attached s'"
proof (rule attachedI)
  fix h' assume lt: "h' < length (tasks s')" and lv: "live (tasks s' ! h')"
  from lt t' have lt0: "h' < length (tasks s)" by simp
  have ne: "h' \<noteq> h"
  proof
    assume "h' = h"
    with lt0 t' have "tasks s' ! h' = a'" by simp
    with lv nl show False by simp
  qed
  with t' have same: "tasks s' ! h' = tasks s ! h'" by simp
  with lv have lv0: "live (tasks s ! h')" by simp
  from attachedD [OF a lt0 lv0] obtain e where
    e: "map_of (cache s) (getKey (meta (tasks s ! h'))) = Some e" "h' \<in> refs e" by blast
  have "getKey (meta (tasks s ! h')) \<noteq> key"
  proof
    assume "getKey (meta (tasks s ! h')) = key"
    with e m have "e = ex" by simp
    with e r refs_unique [OF consistent_entry [OF c m]] have "h = h'" by blast
    with ne show False by simp
  qed
  with c' e same
  show "\<exists>e. map_of (cache s') (getKey (meta (tasks s' ! h'))) = Some e \<and> h' \<in> refs e"
    by auto
qed

text \<open>A new attempt is submitted for a fingerprint with no attempt in flight.\<close>

lemma attached_submit:
  assumes a: "attached s" and i: "idle s key"
    and t': "tasks s' = tasks s @ [a']" and k: "getKey (meta a') = key"
    and c': "map_of (cache s') = (map_of (cache s))(key \<mapsto> e')"
    and r: "length (tasks s) \<in> refs e'"
  shows "attached s'"
proof (rule attachedI)
  fix h' assume lt: "h' < length (tasks s')" and lv: "live (tasks s' ! h')"
  show "\<exists>e. map_of (cache s') (getKey (meta (tasks s' ! h'))) = Some e \<and> h' \<in> refs e"
  proof (cases "h' < length (tasks s)")
    case True
    with t' have same: "tasks s' ! h' = tasks s ! h'" by (simp add: nth_append)
    with lv have lv0: "live (tasks s ! h')" by simp
    from attachedD [OF a True lv0] obtain e where
      e: "map_of (cache s) (getKey (meta (tasks s ! h'))) = Some e" "h' \<in> refs e" by blast
    from i True lv0 have "getKey (meta (tasks s ! h')) \<noteq> key" by (simp add: idle_iff)
    with e c' same show ?thesis by simp
  next
    case False
    with lt t' have "h' = length (tasks s)" by simp
    with t' k c' r show ?thesis by simp
  qed
qed

lemma attached_preempt_read:
  assumes c: "consistent s" and a: "attached s"
  shows "attached (preempt s req False)"
proof (cases "map_of (cache s) (getKey req)")
  case None
  with a show ?thesis by (simp add: preempt_absent)
next
  case (Some ex)
  from consistent_entry [OF c Some] have ok: "entry_ok (tasks s) (getKey req) ex" .
  have p: "preempt s req False =
      (if num_less (priority_or_0 (args ex)) (priority_or_0 req)
       then preempt_pending s (getKey req) ex else s)"
    using Some by (simp add: preempt_unfold [OF c])
  show ?thesis
  proof (cases "num_less (priority_or_0 (args ex)) (priority_or_0 req) \<and> status ex = Pending")
    case False
    with a p show ?thesis by (auto simp: preempt_pending_unfold [OF ok])
  next
    case True
    from entry_ok_pending [OF ok] True obtain h where
      h: "value' ex = Promise h" "next' ex = None" by blast
    show ?thesis
    proof (cases "started (tasks s ! h)")
      case st: True
      with a p True h show ?thesis by (simp add: preempt_pending_unfold [OF ok])
    next
      case False
      let ?s' = "s\<lparr>tasks := (tasks s)[h := (tasks s ! h)\<lparr>aborted := True\<rparr>],
                   cache := AList.delete (getKey req) (cache s)\<rparr>"
      from True h have r: "h \<in> refs ex" by (simp add: refs_pending)
      have "attached ?s'"
        by (rule attached_retire [OF c a Some r, of "(tasks s ! h)\<lparr>aborted := True\<rparr>"])
           (simp_all add: live_def delete_conv')
      with p True h False show ?thesis by (simp add: preempt_pending_unfold [OF ok])
    qed
  qed
qed

lemma attached_admit_read:
  assumes a: "attached s"
  shows "attached (snd (admit s req False))"
proof (cases "map_of (cache s) (getKey req)")
  case (Some ex)
  with a show ?thesis by (simp add: admit_present_read)
next
  case None
  then have i: "idle s (getKey req)" using attached_idle [OF a] by simp
  let ?e = "\<lparr>status = Pending, value' = Promise (length (tasks s)), next' = None, args = req\<rparr>"
  have "attached (s\<lparr>cache := AList.update (getKey req) ?e (cache s),
                    tasks := tasks s @ [new_attempt req]\<rparr>)"
    by (rule attached_submit [OF a i, of _ "new_attempt req" ?e])
       (simp_all add: new_attempt_def update_conv' refs_def)
  with None show ?thesis by (simp add: admit_absent)
qed

lemma attached_startLoading_read:
  assumes "consistent s" and "attached s"
  shows "attached (snd (startLoading s req False))"
  using assms
  by (simp add: startLoading_def attached_admit_read attached_preempt_read)

lemma attached_invalidate:
  assumes a: "attached s" and i: "idle s (getKey req)"
  shows "attached (invalidate s req)"
proof (cases "refreshable s req")
  case True
  then obtain e where e: "map_of (cache s) (getKey req) = Some e"
    "status e \<noteq> Pending" "next' e = None" and l: "0 < listenerCount s (getKey req)"
    by (auto simp: refreshable_def split: option.splits)
  let ?e = "e\<lparr>args := req, next' := Some (length (tasks s))\<rparr>"
  have "attached (s\<lparr>cache := AList.update (getKey req) ?e (cache s),
                    tasks := tasks s @ [new_attempt req]\<rparr>)"
    by (rule attached_submit [OF a i, of _ "new_attempt req" ?e])
       (simp_all add: new_attempt_def update_conv' refs_settled e)
  with invalidate_refresh [OF l e] show ?thesis by simp
next
  case False
  have "attached (s\<lparr>cache := AList.delete (getKey req) (cache s),
                    emitted := emitted s @ [getKey req, ''any'']\<rparr>)"
  proof (rule attachedI)
    fix h
    assume lt: "h < length (tasks (s\<lparr>cache := AList.delete (getKey req) (cache s),
                    emitted := emitted s @ [getKey req, ''any'']\<rparr>))"
      and lv: "live (tasks (s\<lparr>cache := AList.delete (getKey req) (cache s),
                    emitted := emitted s @ [getKey req, ''any'']\<rparr>) ! h)"
    then have lt0: "h < length (tasks s)" and lv0: "live (tasks s ! h)" by simp_all
    from attachedD [OF a lt0 lv0] obtain e where
      e: "map_of (cache s) (getKey (meta (tasks s ! h))) = Some e" "h \<in> refs e" by blast
    from i lt0 lv0 have "getKey (meta (tasks s ! h)) \<noteq> getKey req" by (simp add: idle_iff)
    with e show "\<exists>e. map_of (cache (s\<lparr>cache := AList.delete (getKey req) (cache s),
                    emitted := emitted s @ [getKey req, ''any'']\<rparr>))
          (getKey (meta (tasks (s\<lparr>cache := AList.delete (getKey req) (cache s),
                    emitted := emitted s @ [getKey req, ''any'']\<rparr>) ! h))) = Some e \<and> h \<in> refs e"
      by (simp add: delete_conv')
  qed
  with invalidate_delete [OF False] show ?thesis by simp
qed

lemma attached_run_body:
  assumes a: "attached s"
  shows "attached (run_body s h)"
proof (rule attachedI)
  fix h' assume lt: "h' < length (tasks (run_body s h))" and lv: "live (tasks (run_body s h) ! h')"
  have t: "tasks (run_body s h) =
      (tasks s)[h := (if aborted (tasks s ! h) then (tasks s ! h)\<lparr>finished := True\<rparr>
                      else (tasks s ! h)\<lparr>started := True\<rparr>)]"
    and ch: "cache (run_body s h) = cache s"
    by (simp_all add: run_body_def Let_def)
  from lt t have lt0: "h' < length (tasks s)" by simp
  from lv lt0 have lv0: "live (tasks s ! h')" and mt: "meta (tasks (run_body s h) ! h') = meta (tasks s ! h')"
    unfolding t by (auto simp: nth_update_cases live_def split: if_splits)
  from attachedD [OF a lt0 lv0] obtain e where
    "map_of (cache s) (getKey (meta (tasks s ! h'))) = Some e" "h' \<in> refs e" by blast
  with ch mt
  show "\<exists>e. map_of (cache (run_body s h)) (getKey (meta (tasks (run_body s h) ! h'))) = Some e \<and>
            h' \<in> refs e"
    by simp
qed

lemma attached_settle:
  assumes c: "consistent s" and a: "attached s"
    and lt: "h < length (tasks s)" and st: "started (tasks s ! h)" and nf: "\<not> finished (tasks s ! h)"
  shows "attached (settle s h out)"
proof -
  from c lt st have "\<not> aborted (tasks s ! h)" by (simp add: consistent_def)
  with nf have lv: "live (tasks s ! h)" by (simp add: live_def)
  from attachedD [OF a lt lv] obtain e where
    e: "map_of (cache s) (getKey (meta (tasks s ! h))) = Some e" "h \<in> refs e" by blast
  show ?thesis
    by (rule attached_retire [OF c a e, of "(tasks s ! h)\<lparr>finished := True\<rparr>"])
       (simp_all add: settle_present [OF e(1)] live_def update_conv')
qed

lemma quiet_invalidate_fold:
  assumes "consistent s" and "attached s" and "quiet_all s onlyRejected es"
  shows "attached (fold (\<lambda>e s'. if \<not> onlyRejected \<or> status e = Rejected
                                 then invalidate s' (args e) else s') es s)"
  using assms
proof (induction es arbitrary: s)
  case Nil
  then show ?case by simp
next
  case (Cons e es)
  show ?case
  proof (cases "\<not> onlyRejected \<or> status e = Rejected")
    case False
    with Cons show ?thesis by simp
  next
    case True
    with Cons.prems have i: "idle s (getKey (args e))"
      and q: "quiet_all (invalidate s (args e)) onlyRejected es" by simp_all
    from Cons.IH [OF consistent_invalidate [OF Cons.prems(1)]
        attached_invalidate [OF Cons.prems(2) i] q] True
    show ?thesis by simp
  qed
qed

lemma attached_step:
  assumes c: "consistent s" and a: "attached s" and q: "quiet s ev"
  shows "attached (step s ev)"
proof (cases ev)
  case (Read req)
  then have "step s ev = snd (startLoading s req False)"
    by (simp add: read_def split: prod.splits)
  with attached_startLoading_read [OF c a] show ?thesis by simp
next
  case (Preload req)
  then have "step s ev = snd (startLoading s req False)"
    by (simp add: preload_def split: prod.splits)
  with attached_startLoading_read [OF c a] show ?thesis by simp
next
  case (Invalidate req)
  with q attached_invalidate [OF a] show ?thesis by simp
next
  case (InvalidateAll onlyRejected)
  with q quiet_invalidate_fold [OF c a] show ?thesis by (simp add: invalidateAll_def)
next
  case (On t cb)
  with a show ?thesis by (simp add: on_def emitter_on_def attached_def)
next
  case (Off t cb)
  with a show ?thesis by (simp add: off_def emitter_off_def attached_def)
next
  case (Start h)
  with a attached_run_body [OF a] show ?thesis by simp
next
  case (Settle h out)
  with a attached_settle [OF c a] show ?thesis by simp
qed

lemma attached_run:
  "consistent s \<Longrightarrow> attached s \<Longrightarrow> quiet_run s es \<Longrightarrow> attached (run s es)"
  unfolding run_def
  by (induction es arbitrary: s) (simp_all add: consistent_step attached_step)

lemma attached_init: "attached init"
  by (simp add: attached_def init_def)

lemma attached_reachable: "quiet_run init es \<Longrightarrow> attached (run init es)"
  by (rule attached_run [OF consistent_init attached_init])

lemma sole_in_flight:
  assumes c: "consistent s" and a: "attached s"
    and m: "map_of (cache s) k = Some e" and r: "h \<in> refs e"
    and lt: "h' < length (tasks s)" and lv: "live (tasks s ! h')"
    and k: "getKey (meta (tasks s ! h')) = k"
  shows "h' = h"
proof -
  from attachedD [OF a lt lv] k m have "h' \<in> refs e" by auto
  from refs_unique [OF consistent_entry [OF c m] this r] show ?thesis .
qed

section \<open>A cancelled attempt stays cancelled\<close>

lemma cancelled_tasks: "tasks s' = tasks s \<Longrightarrow> cancelled s' h = cancelled s h"
  by (simp add: cancelled_def)

lemma cancelled_append:
  "cancelled s h \<Longrightarrow> tasks s' = tasks s @ [a] \<Longrightarrow> cancelled s' h"
  by (simp add: cancelled_def nth_append)

lemma cancelled_update:
  assumes "cancelled s h" and "tasks s' = (tasks s)[h2 := a']"
    and "h2 = h \<longrightarrow> aborted a' \<and> \<not> started a'"
  shows "cancelled s' h"
  using assms by (auto simp: cancelled_def nth_update_cases)

lemma cancelled_abort_task:
  assumes "cancelled s h" and "abort_task s h2 = (ok, s1)"
  shows "cancelled s1 h"
proof (cases rule: abort_task_cases [of s h2])
  case failed
  with assms show ?thesis by simp
next
  case ok
  with assms(2) have "tasks s1 = (tasks s)[h2 := (tasks s ! h2)\<lparr>aborted := True\<rparr>]" by auto
  from cancelled_update [OF assms(1) this] assms(1) show ?thesis
    by (simp add: cancelled_def)
qed

lemma cancelled_preempt_pending:
  assumes "cancelled s h"
  shows "cancelled (preempt_pending s key ex) h"
proof (cases "status ex = Pending")
  case False
  with assms show ?thesis by (simp add: preempt_pending_def)
next
  case True
  show ?thesis
  proof (cases "value' ex")
    case (Promise h2)
    obtain ok s1 where a: "abort_task s h2 = (ok, s1)" by (cases "abort_task s h2")
    from cancelled_abort_task [OF assms a] have "cancelled s1 h" .
    then have "cancelled (s1\<lparr>cache := AList.delete key (cache s1)\<rparr>) h"
      by (simp add: cancelled_def)
    with \<open>cancelled s1 h\<close> True Promise a show ?thesis by (simp add: preempt_pending_def)
  next
    case (Data d)
    with assms True show ?thesis by (simp add: preempt_pending_def)
  next
    case (Failure x)
    with assms True show ?thesis by (simp add: preempt_pending_def)
  qed
qed

lemma cancelled_preempt:
  assumes "cancelled s h"
  shows "cancelled (preempt s req isRefetch) h"
proof (cases "map_of (cache s) (getKey req)")
  case None
  with assms show ?thesis by (simp add: preempt_def)
next
  case (Some ex)
  show ?thesis
  proof (cases "num_less (priority_or_0 (args ex)) (priority_or_0 req)")
    case False
    with assms Some show ?thesis by (simp add: preempt_def)
  next
    case True
    show ?thesis
    proof (cases "if isRefetch then next' ex else None")
      case None
      with Some True cancelled_preempt_pending [OF assms] show ?thesis
        by (simp add: preempt_def)
    next
      case (Some h2)
      obtain ok s1 where a: "abort_task s h2 = (ok, s1)" by (cases "abort_task s h2")
      from cancelled_abort_task [OF assms a] have c1: "cancelled s1 h" .
      then have "cancelled
          (s1\<lparr>cache := AList.update (getKey req) (ex\<lparr>next' := None\<rparr>) (cache s1)\<rparr>) h"
        by (simp add: cancelled_def)
      with cancelled_preempt_pending [OF c1] Some True a
        \<open>map_of (cache s) (getKey req) = Some ex\<close>
      show ?thesis by (simp add: preempt_def Let_def)
    qed
  qed
qed

lemma cancelled_admit:
  assumes "cancelled s h"
  shows "cancelled (snd (admit s req isRefetch)) h"
  using assms
  by (auto simp: admit_def Let_def cancelled_def nth_append split: option.splits)

lemma cancelled_startLoading:
  "cancelled s h \<Longrightarrow> cancelled (snd (startLoading s req isRefetch)) h"
  by (simp add: startLoading_def cancelled_admit cancelled_preempt)

lemma cancelled_invalidate:
  assumes "cancelled s h"
  shows "cancelled (invalidate s req) h"
proof (cases "refreshable s req")
  case True
  then have "invalidate s req = snd (startLoading s req True)"
    by (simp add: invalidate_def refreshable_def)
  with cancelled_startLoading [OF assms] show ?thesis by simp
next
  case False
  from invalidate_delete [OF this] assms show ?thesis by (simp add: cancelled_def)
qed

lemma cancelled_invalidate_fold:
  "cancelled s h \<Longrightarrow>
   cancelled (fold (\<lambda>e s'. if P e then invalidate s' (args e) else s') es s) h"
  by (induction es arbitrary: s) (simp_all add: cancelled_invalidate)

lemma cancelled_step:
  assumes c: "cancelled s h"
  shows "cancelled (step s ev) h"
proof (cases ev)
  case (Read req)
  then have "step s ev = snd (startLoading s req False)"
    by (simp add: read_def split: prod.splits)
  with cancelled_startLoading [OF c] show ?thesis by simp
next
  case (Preload req)
  then have "step s ev = snd (startLoading s req False)"
    by (simp add: preload_def split: prod.splits)
  with cancelled_startLoading [OF c] show ?thesis by simp
next
  case (Invalidate req)
  with cancelled_invalidate [OF c] show ?thesis by simp
next
  case (InvalidateAll onlyRejected)
  with cancelled_invalidate_fold [OF c] show ?thesis by (simp add: invalidateAll_def)
next
  case (On t cb)
  with c show ?thesis by (simp add: on_def emitter_on_def cancelled_def)
next
  case (Off t cb)
  with c show ?thesis by (simp add: off_def emitter_off_def cancelled_def)
next
  case (Start h2)
  show ?thesis
  proof (cases "aborted (tasks s ! h2)")
    case True
    from cancelled_update [OF c, of "run_body s h2" h2 "(tasks s ! h2)\<lparr>finished := True\<rparr>"]
      True c
    have "cancelled (run_body s h2) h" by (simp add: run_body_aborted cancelled_def)
    with Start c show ?thesis by simp
  next
    case False
    with c have "h2 \<noteq> h" by (auto simp: cancelled_def)
    with cancelled_update [OF c, of "run_body s h2" h2 "(tasks s ! h2)\<lparr>started := True\<rparr>"]
      False
    have "cancelled (run_body s h2) h" by (simp add: run_body_fetch)
    with Start c show ?thesis by simp
  qed
next
  case (Settle h2 out)
  have t: "tasks (settle s h2 out) = (tasks s)[h2 := (tasks s ! h2)\<lparr>finished := True\<rparr>]"
    by (cases "map_of (cache s) (getKey (meta (tasks s ! h2)))")
       (simp_all add: settle_absent settle_present)
  from cancelled_update [OF c t] c have "cancelled (settle s h2 out) h"
    by (simp add: cancelled_def)
  with Settle c show ?thesis by simp
qed

lemma cancelled_run: "cancelled s h \<Longrightarrow> cancelled (run s evs) h"
  unfolding run_def by (induction evs arbitrary: s) (simp_all add: cancelled_step)

lemma cancelled_no_fetch:
  assumes "cancelled s h"
  shows "fetched (step s (Start h)) = fetched s \<and> cache (step s (Start h)) = cache s"
  using assms by (simp add: cancelled_def run_body_aborted)

section \<open>Concurrent reads of one fingerprint\<close>

lemma read_snd: "snd (read s req) = snd (startLoading s req False)"
  by (simp add: read_def split: prod.splits)

lemma preload_snd: "snd (preload s req) = snd (startLoading s req False)"
  by (simp add: preload_def split: prod.splits)

lemma unseen_startLoading:
  assumes u: "unseen s k" and k: "getKey req = k"
  shows "sole_attempt (snd (startLoading s req False)) k (length (tasks s))"
proof -
  from u k have m: "map_of (cache s) (getKey req) = None" by (simp add: unseen_def)
  from u have o: "\<forall>j < length (tasks s). getKey (meta (tasks s ! j)) \<noteq> k"
    by (simp add: unseen_def list_all_length)
  from u have f: "fetches_for s k = []" by (simp add: unseen_def)
  have "snd (startLoading s req False) =
      s\<lparr>cache := AList.update (getKey req)
             \<lparr>status = Pending, value' = Promise (length (tasks s)), next' = None,
              args = req\<rparr> (cache s),
        tasks := tasks s @ [new_attempt req]\<rparr>"
    by (simp add: startLoading_def preempt_absent [OF m] admit_absent [OF m])
  with k o f show ?thesis
    by (auto simp: sole_attempt_def update_conv' new_attempt_def nth_append fetches_for_def)
qed

lemma sole_attempt_startLoading:
  assumes d: "sole_attempt s k h" and k: "getKey req = k"
  shows "\<exists>h'. sole_attempt (snd (startLoading s req False)) k h'"
proof -
  let ?e = "\<lparr>status = Pending, value' = Promise h, next' = None, args = meta (tasks s ! h)\<rparr>"
  from d k have m: "map_of (cache s) (getKey req) = Some ?e" by (simp add: sole_attempt_def)
  from d have lt: "h < length (tasks s)" and na: "\<not> aborted (tasks s ! h)"
    by (simp_all add: sole_attempt_def)
  show ?thesis
  proof (cases "num_less (priority_or_0 (meta (tasks s ! h))) (priority_or_0 req) \<and>
                \<not> started (tasks s ! h)")
    case False
    have "preempt s req False = s"
    proof (cases "num_less (priority_or_0 (meta (tasks s ! h))) (priority_or_0 req)")
      case True
      with False have "started (tasks s ! h)" by simp
      with m na True abort_started [of s h] show ?thesis
        by (simp add: preempt_def preempt_pending_def)
    next
      case False
      with m show ?thesis by (simp add: preempt_def)
    qed
    with m have "snd (startLoading s req False) = s"
      by (simp add: startLoading_def admit_present_read)
    with d show ?thesis by auto
  next
    case True
    let ?s1 = "s\<lparr>tasks := (tasks s)[h := (tasks s ! h)\<lparr>aborted := True\<rparr>],
                 cache := AList.delete (getKey req) (cache s)\<rparr>"
    from True m abort_unstarted [of s h] have p: "preempt s req False = ?s1"
      by (simp add: preempt_def preempt_pending_def)
    have m1: "map_of (cache ?s1) (getKey req) = None" by (simp add: map_of_delete_same)
    let ?n = "length (tasks s)"
    let ?s2 = "?s1\<lparr>cache := AList.update (getKey req)
             \<lparr>status = Pending, value' = Promise ?n, next' = None, args = req\<rparr> (cache ?s1),
        tasks := tasks ?s1 @ [new_attempt req]\<rparr>"
    have s2: "snd (startLoading s req False) = ?s2"
      unfolding startLoading_def p using admit_absent [OF m1] by simp
    from d True have f: "fetches_for s k = []" by (simp add: sole_attempt_def)
    from d have o: "\<forall>j < length (tasks s). j \<noteq> h \<and> getKey (meta (tasks s ! j)) = k \<longrightarrow>
         aborted (tasks s ! j) \<and> \<not> started (tasks s ! j)"
      by (simp add: sole_attempt_def)
    have "sole_attempt ?s2 k ?n"
      unfolding sole_attempt_def
    proof (intro conjI allI impI)
      show "?n < length (tasks ?s2)" by simp
      show "map_of (cache ?s2) k =
          Some \<lparr>status = Pending, value' = Promise ?n, next' = None,
                args = meta (tasks ?s2 ! ?n)\<rparr>"
        using k by (simp add: update_conv' new_attempt_def nth_append)
      show "getKey (meta (tasks ?s2 ! ?n)) = k"
        using k by (simp add: new_attempt_def nth_append)
      show "\<not> aborted (tasks ?s2 ! ?n)" by (simp add: new_attempt_def nth_append)
      show "\<not> finished (tasks ?s2 ! ?n)" by (simp add: new_attempt_def nth_append)
      show "fetches_for ?s2 k = (if started (tasks ?s2 ! ?n) then [meta (tasks ?s2 ! ?n)] else [])"
        using f by (simp add: new_attempt_def nth_append fetches_for_def)
    next
      fix j assume j: "j < length (tasks ?s2)"
        and jk: "j \<noteq> ?n \<and> getKey (meta (tasks ?s2 ! j)) = k"
      from j jk have j0: "j < length (tasks s)" by simp
      show "aborted (tasks ?s2 ! j)"
      proof (cases "j = h")
        case True
        with lt show ?thesis by (simp add: nth_append)
      next
        case False
        with j0 jk o show ?thesis by (simp add: nth_append)
      qed
      show "\<not> started (tasks ?s2 ! j)"
      proof (cases "j = h")
        case True
        with lt \<open>num_less _ _ \<and> \<not> started (tasks s ! h)\<close> show ?thesis by (simp add: nth_append)
      next
        case False
        with j0 jk o show ?thesis by (simp add: nth_append)
      qed
    qed
    with s2 show ?thesis by auto
  qed
qed

lemma unseen_start:
  assumes u: "unseen s k"
  shows "unseen (step s (Start j)) k"
proof (cases "j < length (tasks s) \<and> \<not> started (tasks s ! j) \<and> \<not> finished (tasks s ! j)")
  case False
  with u show ?thesis by auto
next
  case True
  from u True have nk: "getKey (meta (tasks s ! j)) \<noteq> k"
    by (simp add: unseen_def list_all_length)
  from u have o: "\<forall>i < length (tasks s). getKey (meta (tasks s ! i)) \<noteq> k"
    by (simp add: unseen_def list_all_length)
  show ?thesis
  proof (cases "aborted (tasks s ! j)")
    case a: True
    with True u o show ?thesis
      by (auto simp: run_body_aborted unseen_def list_all_length nth_update_cases fetches_for_def)
  next
    case a: False
    with True u o nk show ?thesis
      by (auto simp: run_body_fetch unseen_def list_all_length nth_update_cases fetches_for_def)
  qed
qed

lemma sole_attempt_start:
  assumes d: "sole_attempt s k h"
  shows "sole_attempt (step s (Start j)) k h \<and>
         (j = h \<or> started (tasks s ! h) \<longrightarrow> started (tasks (step s (Start j)) ! h))"
proof (cases "j < length (tasks s) \<and> \<not> started (tasks s ! j) \<and> \<not> finished (tasks s ! j)")
  case False
  with d show ?thesis by (auto simp: sole_attempt_def)
next
  case True
  note en = this
  from d have lt: "h < length (tasks s)" by (simp add: sole_attempt_def)
  show ?thesis
  proof (cases "aborted (tasks s ! j)")
    case a: True
    with d have jh: "j \<noteq> h" by (auto simp: sole_attempt_def)
    have s': "step s (Start j) = s\<lparr>tasks := (tasks s)[j := (tasks s ! j)\<lparr>finished := True\<rparr>]\<rparr>"
      using en a by (simp add: run_body_aborted)
    from d jh lt show ?thesis
      unfolding s' by (auto simp: sole_attempt_def nth_update_cases fetches_for_def)
  next
    case a: False
    have s': "step s (Start j) = s\<lparr>tasks := (tasks s)[j := (tasks s ! j)\<lparr>started := True\<rparr>],
                                    fetched := fetched s @ [meta (tasks s ! j)]\<rparr>"
      using en a by (simp add: run_body_fetch)
    show ?thesis
    proof (cases "j = h")
      case True
      with d en lt show ?thesis
        unfolding s' by (auto simp: sole_attempt_def nth_update_cases fetches_for_def)
    next
      case False
      from d en a False have "getKey (meta (tasks s ! j)) \<noteq> k"
        by (auto simp: sole_attempt_def)
      with d False lt en show ?thesis
        unfolding s' by (auto simp: sole_attempt_def nth_update_cases fetches_for_def)
    qed
  qed
qed

lemma sole_attempt_step:
  assumes r: "read_or_start k ev" and d: "\<exists>h. sole_attempt s k h"
  shows "\<exists>h. sole_attempt (step s ev) k h"
proof -
  from d obtain h where h: "sole_attempt s k h" by blast
  show ?thesis
  proof (cases ev)
    case (Read req)
    with r sole_attempt_startLoading [OF h, of req] show ?thesis by (simp add: read_snd)
  next
    case (Preload req)
    with r sole_attempt_startLoading [OF h, of req] show ?thesis by (simp add: preload_snd)
  next
    case (Start j)
    with sole_attempt_start [OF h, of j] show ?thesis by blast
  qed (use r in simp_all)
qed

lemma unseen_step:
  assumes r: "read_or_start k ev" and u: "unseen s k"
  shows "if is_read ev then \<exists>h. sole_attempt (step s ev) k h else unseen (step s ev) k"
proof (cases ev)
  case (Read req)
  with r unseen_startLoading [OF u, of req] show ?thesis by (auto simp: read_snd)
next
  case (Preload req)
  with r unseen_startLoading [OF u, of req] show ?thesis by (auto simp: preload_snd)
next
  case (Start j)
  with unseen_start [OF u, of j] show ?thesis by simp
qed (use r in simp_all)

lemma sole_attempt_run:
  "\<forall>ev \<in> set es. read_or_start k ev \<Longrightarrow> \<exists>h. sole_attempt s k h \<Longrightarrow>
   \<exists>h. sole_attempt (run s es) k h"
  unfolding run_def
proof (induction es arbitrary: s)
  case Nil
  then show ?case by simp
next
  case (Cons ev es)
  from Cons.prems have "\<exists>h. sole_attempt (step s ev) k h"
    by (intro sole_attempt_step) simp_all
  with Cons show ?case by simp
qed

lemma unseen_run:
  "\<forall>ev \<in> set es. read_or_start k ev \<Longrightarrow> unseen s k \<Longrightarrow> \<exists>ev \<in> set es. is_read ev \<Longrightarrow>
   \<exists>h. sole_attempt (run s es) k h"
proof (induction es arbitrary: s)
  case Nil
  then show ?case by simp
next
  case (Cons ev es)
  from Cons.prems have r: "read_or_start k ev" and rs: "\<forall>ev \<in> set es. read_or_start k ev"
    by simp_all
  show ?case
  proof (cases "is_read ev")
    case True
    with unseen_step [OF r Cons.prems(2)] have "\<exists>h. sole_attempt (step s ev) k h" by simp
    from sole_attempt_run [OF rs this] show ?thesis by (simp add: run_def)
  next
    case False
    with unseen_step [OF r Cons.prems(2)] have u: "unseen (step s ev) k" by simp
    from False Cons.prems(3) have "\<exists>ev \<in> set es. is_read ev" by simp
    from Cons.IH [OF rs u this] show ?thesis by (simp add: run_def)
  qed
qed

lemma sole_attempt_flush_fold:
  "sole_attempt s k h \<Longrightarrow>
   sole_attempt (fold (\<lambda>j s'. step s' (Start j)) js s) k h \<and>
   (h \<in> set js \<or> started (tasks s ! h) \<longrightarrow>
      started (tasks (fold (\<lambda>j s'. step s' (Start j)) js s) ! h))"
proof (induction js arbitrary: s)
  case Nil
  then show ?case by simp
next
  case (Cons j js)
  from sole_attempt_start [OF Cons.prems, of j]
  have d: "sole_attempt (step s (Start j)) k h"
    and st: "j = h \<or> started (tasks s ! h) \<longrightarrow> started (tasks (step s (Start j)) ! h)"
    by blast+
  from Cons.IH [OF d] st show ?case by auto
qed

lemma sole_attempt_flush:
  assumes "sole_attempt s k h"
  shows "length (fetches_for (flush s) k) = 1"
proof -
  from assms have lt: "h \<in> set [0..<length (tasks s)]" by (simp add: sole_attempt_def)
  from sole_attempt_flush_fold [OF assms, of "[0..<length (tasks s)]"] lt
  have d: "sole_attempt (flush s) k h" and st: "started (tasks (flush s) ! h)"
    unfolding flush_def by blast+
  from d st show ?thesis by (simp add: sole_attempt_def)
qed

section \<open>The request that produced the visible value\<close>

lemma tracedI:
  assumes "\<And>k e. map_of (cache s) k = Some e \<Longrightarrow> status e \<noteq> Pending \<Longrightarrow>
             \<exists>req out. p k = Some (req, out) \<and> status e = outcome_status out \<and>
               value' e = outcome_value out \<and> (next' e = None \<longrightarrow> args e = req)"
  shows "traced s p"
  using assms unfolding traced_def by blast

lemma tracedD:
  assumes "traced s p" and "map_of (cache s) k = Some e" and "status e \<noteq> Pending"
  shows "\<exists>req out. p k = Some (req, out) \<and> status e = outcome_status out \<and>
           value' e = outcome_value out \<and> (next' e = None \<longrightarrow> args e = req)"
  using assms unfolding traced_def by blast

lemma traced_cache: "cache s' = cache s \<Longrightarrow> traced s' p = traced s p"
  by (simp add: traced_def)

text \<open>A read changes no settled entry: it leaves the table, or stores a pending entry.\<close>

lemma startLoading_read_cache:
  assumes c: "consistent s"
  shows "cache (snd (startLoading s req False)) = cache s \<or>
         (\<exists>e'. status e' = Pending \<and>
            map_of (cache (snd (startLoading s req False))) = (map_of (cache s))(getKey req \<mapsto> e'))"
proof (cases "map_of (cache s) (getKey req)")
  case None
  have "map_of (cache (snd (startLoading s req False))) =
          (map_of (cache s))(getKey req \<mapsto>
             \<lparr>status = Pending, value' = Promise (length (tasks s)), next' = None,
              args = req\<rparr>)"
    unfolding startLoading_def preempt_absent [OF None] admit_absent [OF None]
    by (simp add: update_conv')
  then show ?thesis by (intro disjI2 exI conjI) simp_all
next
  case (Some ex)
  from consistent_entry [OF c Some] have ok: "entry_ok (tasks s) (getKey req) ex" .
  have p: "preempt s req False =
      (if num_less (priority_or_0 (args ex)) (priority_or_0 req)
       then preempt_pending s (getKey req) ex else s)"
    using Some by (simp add: preempt_unfold [OF c])
  show ?thesis
  proof (cases "num_less (priority_or_0 (args ex)) (priority_or_0 req) \<and> status ex = Pending")
    case False
    with p have "preempt s req False = s" by (auto simp: preempt_pending_unfold [OF ok])
    with Some show ?thesis by (simp add: startLoading_def admit_present_read)
  next
    case True
    from entry_ok_pending [OF ok] True obtain h where h: "value' ex = Promise h" by blast
    show ?thesis
    proof (cases "started (tasks s ! h)")
      case st: True
      with p True h have "preempt s req False = s" by (simp add: preempt_pending_unfold [OF ok])
      with Some show ?thesis by (simp add: startLoading_def admit_present_read)
    next
      case False
      let ?s1 = "s\<lparr>tasks := (tasks s)[h := (tasks s ! h)\<lparr>aborted := True\<rparr>],
                   cache := AList.delete (getKey req) (cache s)\<rparr>"
      from p True h False have p1: "preempt s req False = ?s1"
        by (simp add: preempt_pending_unfold [OF ok])
      have m1: "map_of (cache ?s1) (getKey req) = None" by (simp add: map_of_delete_same)
      have "map_of (cache (snd (startLoading s req False))) =
              (map_of (cache s))(getKey req \<mapsto>
                 \<lparr>status = Pending, value' = Promise (length (tasks ?s1)), next' = None,
                  args = req\<rparr>)"
        unfolding startLoading_def p1 admit_absent [OF m1]
        by (simp add: update_conv' delete_conv')
      then show ?thesis by (intro disjI2 exI conjI) simp_all
    qed
  qed
qed

lemma traced_startLoading_read:
  assumes c: "consistent s" and t: "traced s p"
  shows "traced (snd (startLoading s req False)) p"
proof (rule tracedI)
  fix k e
  assume m: "map_of (cache (snd (startLoading s req False))) k = Some e"
    and np: "status e \<noteq> Pending"
  from startLoading_read_cache [OF c, of req] m np have "map_of (cache s) k = Some e"
    by (auto split: if_splits)
  from tracedD [OF t this np]
  show "\<exists>req out. p k = Some (req, out) \<and> status e = outcome_status out \<and>
          value' e = outcome_value out \<and> (next' e = None \<longrightarrow> args e = req)" .
qed

lemma traced_invalidate:
  assumes t: "traced s p"
  shows "traced (invalidate s req) p"
proof (cases "refreshable s req")
  case True
  then obtain e0 where e0: "map_of (cache s) (getKey req) = Some e0"
    "status e0 \<noteq> Pending" "next' e0 = None" and l: "0 < listenerCount s (getKey req)"
    by (auto simp: refreshable_def split: option.splits)
  note inv = invalidate_refresh [OF l e0]
  show ?thesis
  proof (rule tracedI)
    fix k e
    assume m: "map_of (cache (invalidate s req)) k = Some e" and np: "status e \<noteq> Pending"
    show "\<exists>req out. p k = Some (req, out) \<and> status e = outcome_status out \<and>
            value' e = outcome_value out \<and> (next' e = None \<longrightarrow> args e = req)"
    proof (cases "k = getKey req")
      case True
      with m have e: "e = e0\<lparr>args := req, next' := Some (length (tasks s))\<rparr>"
        by (simp add: inv update_conv')
      from tracedD [OF t e0(1) e0(2)] True e show ?thesis by auto
    next
      case False
      with m have "map_of (cache s) k = Some e" by (simp add: inv update_conv')
      from tracedD [OF t this np] show ?thesis .
    qed
  qed
next
  case False
  show ?thesis
  proof (rule tracedI)
    fix k e
    assume m: "map_of (cache (invalidate s req)) k = Some e" and np: "status e \<noteq> Pending"
    from m have "map_of (cache s) k = Some e"
      by (auto simp: invalidate_delete [OF False] delete_conv' split: if_splits)
    from tracedD [OF t this np]
    show "\<exists>req out. p k = Some (req, out) \<and> status e = outcome_status out \<and>
            value' e = outcome_value out \<and> (next' e = None \<longrightarrow> args e = req)" .
  qed
qed

lemma traced_invalidate_fold:
  "traced s p \<Longrightarrow>
   traced (fold (\<lambda>e s'. if P e then invalidate s' (args e) else s') es s) p"
  by (induction es arbitrary: s) (simp_all add: traced_invalidate)

lemma traced_settle:
  assumes c: "consistent s" and a: "attached s" and t: "traced s p"
    and lt: "h < length (tasks s)" and st: "started (tasks s ! h)" and nf: "\<not> finished (tasks s ! h)"
  shows "traced (settle s h out) (produced_step s p (Settle h out))"
proof (cases "map_of (cache s) (getKey (meta (tasks s ! h)))")
  case None
  then have "cache (settle s h out) = cache s"
    and "produced_step s p (Settle h out) = p"
    by (simp_all add: settle_absent produced_step_def)
  with t show ?thesis by (simp add: traced_def)
next
  case (Some e0)
  from c lt st have "\<not> aborted (tasks s ! h)" by (simp add: consistent_def)
  with nf have lv: "live (tasks s ! h)" by (simp add: live_def)
  from attachedD [OF a lt lv] Some have "h \<in> refs e0" by auto
  from entry_ok_refs [OF consistent_entry [OF c Some] this]
  have ar: "meta (tasks s ! h) = args e0" by blast
  let ?k = "getKey (meta (tasks s ! h))"
  have ps: "produced_step s p (Settle h out) = p(?k \<mapsto> (meta (tasks s ! h), out))"
    using lt st nf Some by (simp add: produced_step_def)
  show ?thesis
  proof (rule tracedI)
    fix k e
    assume m: "map_of (cache (settle s h out)) k = Some e" and np: "status e \<noteq> Pending"
    show "\<exists>req out'. produced_step s p (Settle h out) k = Some (req, out') \<and>
            status e = outcome_status out' \<and> value' e = outcome_value out' \<and>
            (next' e = None \<longrightarrow> args e = req)"
    proof (cases "k = ?k")
      case True
      with m have "e = (case out of
                 Fulfilled data \<Rightarrow> e0\<lparr>status := Resolved, value' := Data data\<rparr>
               | Failed err \<Rightarrow> e0\<lparr>status := Rejected, value' := Failure (UseAsyncError err)\<rparr>)
              \<lparr>next' := None\<rparr>"
        by (simp add: settle_present [OF Some] update_conv')
      with True ar show ?thesis
        unfolding ps
        by (cases out) (simp_all add: outcome_status_def outcome_value_def)
    next
      case False
      with m have "map_of (cache s) k = Some e"
        by (simp add: settle_present [OF Some] update_conv')
      from tracedD [OF t this np] False show ?thesis unfolding ps by simp
    qed
  qed
qed

lemma traced_step:
  assumes c: "consistent s" and a: "attached s" and t: "traced s p"
  shows "traced (step s ev) (produced_step s p ev)"
proof (cases ev)
  case (Read req)
  with traced_startLoading_read [OF c t, of req] show ?thesis
    by (simp add: read_snd produced_step_def)
next
  case (Preload req)
  with traced_startLoading_read [OF c t, of req] show ?thesis
    by (simp add: preload_snd produced_step_def)
next
  case (Invalidate req)
  with traced_invalidate [OF t] show ?thesis by (simp add: produced_step_def)
next
  case (InvalidateAll onlyRejected)
  with traced_invalidate_fold [OF t] show ?thesis
    by (simp add: invalidateAll_def produced_step_def)
next
  case (On tg cb)
  with t show ?thesis by (simp add: on_def emitter_on_def traced_def produced_step_def)
next
  case (Off tg cb)
  with t show ?thesis by (simp add: off_def emitter_off_def traced_def produced_step_def)
next
  case (Start h)
  have "cache (run_body s h) = cache s" by (simp add: run_body_def Let_def)
  with Start t show ?thesis by (simp add: traced_def produced_step_def)
next
  case (Settle h out)
  show ?thesis
  proof (cases "h < length (tasks s) \<and> started (tasks s ! h) \<and> \<not> finished (tasks s ! h)")
    case True
    with traced_settle [OF c a t, of h out] Settle show ?thesis by simp
  next
    case False
    with Settle t show ?thesis by (auto simp: produced_step_def)
  qed
qed

lemma traced_run:
  "consistent s \<Longrightarrow> attached s \<Longrightarrow> traced s p \<Longrightarrow> quiet_run s es \<Longrightarrow>
   traced (run s es) (produced s p es)"
  unfolding run_def
proof (induction es arbitrary: s p)
  case Nil
  then show ?case by simp
next
  case (Cons ev es)
  from Cons.prems have q: "quiet s ev" and qs: "quiet_run (step s ev) es" by simp_all
  from Cons.IH [OF consistent_step [OF Cons.prems(1)]
      attached_step [OF Cons.prems(1) Cons.prems(2) q]
      traced_step [OF Cons.prems(1) Cons.prems(2) Cons.prems(3)] qs]
  show ?case by simp
qed

lemma traced_reachable:
  "quiet_run init es \<Longrightarrow> traced (run init es) (produced init Map.empty es)"
  by (rule traced_run [OF consistent_init attached_init]) (simp add: traced_def init_def)

section \<open>C5: the fingerprint\<close>

text \<open>
  C5, as the code has it. For two requests (objects, so with pairwise distinct field
  names): the fingerprints are equal whenever the two have the same fields apart from
  \<^verbatim>\<open>priority\<close>, in whatever order the fields were inserted and whether or not a
  priority is present; and the fingerprints are equal exactly when the fields other than
  \<^verbatim>\<open>priority\<close> agree once \<^verbatim>\<open>undefined\<close>, \<^verbatim>\<open>NaN\<close> and the two infinities are taken for one
  value (each is printed as \<^verbatim>\<open>null\<close>). So two requests that differ in a field other than
  \<^verbatim>\<open>priority\<close> have different fingerprints unless both values of that field are among
  those four.
\<close>

theorem getKey_fingerprint:
  assumes "distinct (map fst r1)" and "distinct (map fst r2)"
  shows "(set (omit r1 ''priority'') = set (omit r2 ''priority'') \<longrightarrow> getKey r1 = getKey r2) \<and>
         (getKey r1 = getKey r2 \<longleftrightarrow>
          canon_entry ` set (omit r1 ''priority'') = canon_entry ` set (omit r2 ''priority''))"
  using getKey_eq_iff [OF assms] by auto

theorem getKey_fingerprint_witness:
  "distinct (map fst [(''b'', Str ''x''), (''priority'', Num (Fin 5)), (''a'', Num (Fin 1))]) \<and>
   distinct (map fst [(''a'', Num (Fin 1)), (''b'', Str ''x'')]) \<and>
   set (omit [(''b'', Str ''x''), (''priority'', Num (Fin 5)), (''a'', Num (Fin 1))] ''priority'') =
   set (omit [(''a'', Num (Fin 1)), (''b'', Str ''x'')] ''priority'') \<and>
   getKey [(''b'', Str ''x''), (''priority'', Num (Fin 5)), (''a'', Num (Fin 1))] =
   getKey [(''a'', Num (Fin 1)), (''b'', Str ''x'')]"
proof -
  have d1: "distinct (map fst [(''b'', Str ''x''), (''priority'', Num (Fin 5)), (''a'', Num (Fin 1))])"
    by simp
  have d2: "distinct (map fst [(''a'', Num (Fin 1)), (''b'', Str ''x'')])"
    by simp
  have s: "set (omit [(''b'', Str ''x''), (''priority'', Num (Fin 5)), (''a'', Num (Fin 1))] ''priority'') =
           set (omit [(''a'', Num (Fin 1)), (''b'', Str ''x'')] ''priority'')"
    by (auto simp: omit_def)
  from getKey_fingerprint [OF d1 d2] s d1 d2 show ?thesis by blast
qed

text \<open>
  C5 as stated fails: a request whose field \<^verbatim>\<open>a\<close> is \<^verbatim>\<open>undefined\<close> and one whose field
  \<^verbatim>\<open>a\<close> is \<^verbatim>\<open>NaN\<close> differ in a field other than \<^verbatim>\<open>priority\<close> and have the same
  fingerprint.
\<close>

theorem getKey_fingerprint_counterexample:
  "map_of [(''a'', Undefined)] ''a'' \<noteq> map_of [(''a'', Num NaN)] ''a'' \<and>
   getKey [(''a'', Undefined)] = getKey [(''a'', Num NaN)]"
  by (simp add: getKey_def omit_def sort_with_def json_entry_def json_value_def json_number_def)

section \<open>C10: invalidating a request that has no entry\<close>

text \<open>
  C10. When the table has no entry under the fingerprint of the request, \<^verbatim>\<open>invalidate\<close>
  leaves the table (and the attempts) as they are and emits the fingerprint and then
  \<^verbatim>\<open>"any"\<close>, once each.
\<close>

theorem invalidate_without_entry:
  assumes "map_of (cache s) (getKey req) = None"
  shows "invalidate s req = s\<lparr>emitted := emitted s @ [getKey req, ''any'']\<rparr> \<and>
         cache (invalidate s req) = cache s"
proof -
  from assms have "\<not> refreshable s req" by (simp add: refreshable_def)
  then show ?thesis using assms by (simp add: invalidate_delete delete_absent)
qed

theorem invalidate_without_entry_witness:
  "map_of (cache (init :: (nat, nat) engine)) (getKey [(''id'', Num (Fin 1))]) = None \<and>
   cache (invalidate (init :: (nat, nat) engine) [(''id'', Num (Fin 1))]) = [] \<and>
   emitted (invalidate (init :: (nat, nat) engine) [(''id'', Num (Fin 1))]) =
     [getKey [(''id'', Num (Fin 1))], ''any'']"
proof -
  have h: "map_of (cache (init :: (nat, nat) engine)) (getKey [(''id'', Num (Fin 1))]) = None"
    by (simp add: init_def)
  from invalidate_without_entry [OF h] h show ?thesis by (simp add: init_def)
qed

section \<open>C4: when \<^verbatim>\<open>invalidate\<close> refreshes and when it deletes\<close>

text \<open>
  C4. \<^verbatim>\<open>invalidate\<close> submits a new attempt exactly when the fingerprint has a listener,
  an entry exists, the entry is not pending and its \<^verbatim>\<open>next\<close> is null. In that case the
  entry stays, with the new attempt as its \<^verbatim>\<open>next\<close> (and the request as its \<^verbatim>\<open>args\<close>), and
  nothing is emitted. In every other case the entry is deleted, no attempt is submitted,
  and the fingerprint and \<^verbatim>\<open>"any"\<close> are emitted. In particular, with no listener on the
  fingerprint the entry is gone and the attempts are unchanged.
\<close>

theorem invalidate_refresh_or_delete:
  "(tasks (invalidate s req) \<noteq> tasks s \<longleftrightarrow> refreshable s req) \<and>
   (refreshable s req \<longrightarrow>
      (\<exists>e. map_of (cache s) (getKey req) = Some e \<and>
           invalidate s req =
             s\<lparr>cache := AList.update (getKey req)
                    (e\<lparr>args := req, next' := Some (length (tasks s))\<rparr>) (cache s),
               tasks := tasks s @ [new_attempt req]\<rparr>)) \<and>
   (\<not> refreshable s req \<longrightarrow>
      invalidate s req =
        s\<lparr>cache := AList.delete (getKey req) (cache s),
          emitted := emitted s @ [getKey req, ''any'']\<rparr>) \<and>
   (listenerCount s (getKey req) = 0 \<longrightarrow>
      map_of (cache (invalidate s req)) (getKey req) = None \<and>
      tasks (invalidate s req) = tasks s)"
proof (cases "refreshable s req")
  case True
  then obtain e where e: "map_of (cache s) (getKey req) = Some e"
    "status e \<noteq> Pending" "next' e = None" and l: "0 < listenerCount s (getKey req)"
    by (auto simp: refreshable_def split: option.splits)
  from invalidate_refresh [OF l e] True e l show ?thesis by auto
next
  case False
  from invalidate_delete [OF this] False show ?thesis
    by (simp add: map_of_delete_same)
qed

theorem invalidate_refresh_or_delete_witness:
  "refreshable (run engine0 [Read req_a, Start 0, Settle 0 (Fulfilled 2), On (Args req_a) 0]) req_b \<and>
   tasks (invalidate
     (run engine0 [Read req_a, Start 0, Settle 0 (Fulfilled 2), On (Args req_a) 0]) req_b) \<noteq>
   tasks (run engine0 [Read req_a, Start 0, Settle 0 (Fulfilled 2), On (Args req_a) 0]) \<and>
   \<not> refreshable (run engine0 [Read req_a, Start 0, Settle 0 (Fulfilled 2)]) req_b \<and>
   listenerCount (run engine0 [Read req_a, Start 0, Settle 0 (Fulfilled 2)]) (getKey req_b) = 0 \<and>
   map_of (cache (invalidate (run engine0 [Read req_a, Start 0, Settle 0 (Fulfilled 2)]) req_b))
     (getKey req_b) = None \<and>
   tasks (invalidate (run engine0 [Read req_a, Start 0, Settle 0 (Fulfilled 2)]) req_b) =
   tasks (run engine0 [Read req_a, Start 0, Settle 0 (Fulfilled 2)])"
proof -
  have r: "refreshable
    (run engine0 [Read req_a, Start 0, Settle 0 (Fulfilled 2), On (Args req_a) 0]) req_b"
    by code_simp
  have n: "\<not> refreshable (run engine0 [Read req_a, Start 0, Settle 0 (Fulfilled 2)]) req_b"
    by code_simp
  have l: "listenerCount (run engine0 [Read req_a, Start 0, Settle 0 (Fulfilled 2)])
             (getKey req_b) = 0"
    by code_simp
  from r n l
    invalidate_refresh_or_delete [of
      "run engine0 [Read req_a, Start 0, Settle 0 (Fulfilled 2), On (Args req_a) 0]" req_b]
    invalidate_refresh_or_delete [of
      "run engine0 [Read req_a, Start 0, Settle 0 (Fulfilled 2)]" req_b]
  show ?thesis by blast
qed

section \<open>C9: a failing fetch\<close>

text \<open>
  C9. When \<^verbatim>\<open>fetchData\<close> fails for an attempt and the table has an entry under the
  attempt's fingerprint, the failure is caught: the entry becomes \<^verbatim>\<open>Rejected\<close>, its value
  the \<^verbatim>\<open>UseAsyncError\<close> that wraps the failure, its \<^verbatim>\<open>next\<close> null. A later \<^verbatim>\<open>read\<close> or
  \<^verbatim>\<open>preload\<close> of a request with that fingerprint throws that error and changes nothing.
  The error boundary keeps a \<^verbatim>\<open>UseAsyncError\<close> as its state and throws any other error
  again, unchanged.
\<close>

theorem fetch_failure_rejected:
  assumes "map_of (cache s) (getKey (meta (tasks s ! h))) = Some e"
    and "getKey req = getKey (meta (tasks s ! h))"
  shows "map_of (cache (settle s h (Failed err))) (getKey req) =
           Some (e\<lparr>status := Rejected, value' := Failure (UseAsyncError err), next' := None\<rparr>) \<and>
         read (settle s h (Failed err)) req =
           (Inl (Failure (UseAsyncError err)), settle s h (Failed err)) \<and>
         preload (settle s h (Failed err)) req =
           (Throw (Failure (UseAsyncError err)), settle s h (Failed err)) \<and>
         getDerivedStateFromError (UseAsyncError err) = Inr (Some (UseAsyncError err)) \<and>
         getDerivedStateFromError (OtherError other) = Inl (OtherError other)"
proof -
  let ?s = "settle s h (Failed err)"
  let ?e = "e\<lparr>status := Rejected, value' := Failure (UseAsyncError err), next' := None\<rparr>"
  have c: "map_of (cache ?s) (getKey req) = Some ?e"
    using assms by (simp add: settle_present update_conv')
  have st: "status ?e = Rejected" and v: "value' ?e = Failure (UseAsyncError err)"
    by simp_all
  from read_rejected [OF c st] have r: "read ?s req = (Inl (Failure (UseAsyncError err)), ?s)"
    by simp
  from preload_rejected [OF c st]
  have p: "preload ?s req = (Throw (Failure (UseAsyncError err)), ?s)"
    by simp
  from c r p show ?thesis by (simp add: getDerivedStateFromError_def)
qed

theorem fetch_failure_rejected_witness:
  "map_of (cache (run engine0 [Read req_a, Start 0]))
     (getKey (meta (tasks (run engine0 [Read req_a, Start 0]) ! 0))) =
     Some \<lparr>status = Pending, value' = Promise 0, next' = None, args = req_a\<rparr> \<and>
   getKey req_b = getKey (meta (tasks (run engine0 [Read req_a, Start 0]) ! 0)) \<and>
   map_of (cache (settle (run engine0 [Read req_a, Start 0]) 0 (Failed ''boom''))) (getKey req_b) =
     Some \<lparr>status = Rejected, value' = Failure (UseAsyncError ''boom''), next' = None,
           args = req_a\<rparr> \<and>
   fst (read (settle (run engine0 [Read req_a, Start 0]) 0 (Failed ''boom'')) req_b) =
     Inl (Failure (UseAsyncError ''boom''))"
proof -
  have h1: "map_of (cache (run engine0 [Read req_a, Start 0]))
     (getKey (meta (tasks (run engine0 [Read req_a, Start 0]) ! 0))) =
     Some \<lparr>status = Pending, value' = Promise 0, next' = None, args = req_a\<rparr>"
    by code_simp
  have h2: "getKey req_b = getKey (meta (tasks (run engine0 [Read req_a, Start 0]) ! 0))"
    by code_simp
  from fetch_failure_rejected [where err = "''boom''" and other = "''other''", OF h1 h2] h1 h2
  show ?thesis by simp
qed

section \<open>C8: settling without an entry\<close>




section \<open>C3: stale while revalidate\<close>

text \<open>
  C3. Take a resolved entry with data \<open>d\<close>, no \<^verbatim>\<open>next\<close> and a listener on its
  fingerprint. \<^verbatim>\<open>invalidate\<close> keeps the status and the value and stores the new attempt
  in \<^verbatim>\<open>next\<close>. A \<^verbatim>\<open>read\<close> of a request with that fingerprint then returns \<open>d\<close>, before
  and after the body of the new attempt has started, and changes nothing. Once the new
  attempt has settled with data \<open>d'\<close>, \<^verbatim>\<open>read\<close> returns \<open>d'\<close>.
\<close>

theorem stale_while_revalidate:
  assumes "map_of (cache s) (getKey req) = Some e"
    and "status e = Resolved" and "value' e = Data d" and "next' e = None"
    and "0 < listenerCount s (getKey req)"
    and "getKey r1 = getKey req" and "getKey r2 = getKey req" and "getKey r3 = getKey req"
  shows "map_of (cache (invalidate s req)) (getKey req) =
           Some (e\<lparr>args := req, next' := Some (length (tasks s))\<rparr>) \<and>
         read (invalidate s req) r1 = (Inr (Data d), invalidate s req) \<and>
         read (step (invalidate s req) (Start (length (tasks s)))) r2 =
           (Inr (Data d), step (invalidate s req) (Start (length (tasks s)))) \<and>
         read (step (step (invalidate s req) (Start (length (tasks s))))
                 (Settle (length (tasks s)) (Fulfilled d'))) r3 =
           (Inr (Data d'),
            step (step (invalidate s req) (Start (length (tasks s))))
              (Settle (length (tasks s)) (Fulfilled d')))"
proof -
  define h where "h = length (tasks s)"
  define e1 where "e1 = e\<lparr>args := req, next' := Some h\<rparr>"
  define s1 where "s1 = invalidate s req"
  define s2 where "s2 = step s1 (Start h)"
  define s3 where "s3 = step s2 (Settle h (Fulfilled d'))"
  have np: "status e \<noteq> Pending" using assms(2) by simp
  have s1: "s1 = s\<lparr>cache := AList.update (getKey req) e1 (cache s),
                    tasks := tasks s @ [new_attempt req]\<rparr>"
    unfolding s1_def e1_def h_def
    by (rule invalidate_refresh [OF assms(5) assms(1) np assms(4)])
  have c1: "map_of (cache s1) (getKey req) = Some e1"
    by (simp add: s1 update_conv')
  have t1: "tasks s1 = tasks s @ [new_attempt req]" by (simp add: s1)
  have s2: "s2 = s1\<lparr>tasks := tasks s @ [(new_attempt req)\<lparr>started := True\<rparr>],
                     fetched := fetched s1 @ [req]\<rparr>"
    by (simp add: s2_def h_def t1 run_body_def new_attempt_def)
  have c2: "map_of (cache s2) (getKey req) = Some e1"
    by (simp add: s2 c1)
  have t2: "tasks s2 = tasks s @ [(new_attempt req)\<lparr>started := True\<rparr>]"
    by (simp add: s2)
  have k2: "getKey (meta (tasks s2 ! h)) = getKey req"
    by (simp add: t2 h_def new_attempt_def)
  have c2': "map_of (cache s2) (getKey (meta (tasks s2 ! h))) = Some e1"
    using c2 k2 by simp
  have "h < length (tasks s2) \<and> started (tasks s2 ! h) \<and> \<not> finished (tasks s2 ! h)"
    by (simp add: t2 h_def new_attempt_def)
  then have s3: "s3 = settle s2 h (Fulfilled d')" by (simp add: s3_def)
  have c3: "map_of (cache s3) (getKey req) =
              Some (e1\<lparr>status := Resolved, value' := Data d', next' := None\<rparr>)"
    unfolding s3 settle_present [OF c2'] using k2 by (simp add: update_conv')
  have v1: "status e1 = Resolved" "value' e1 = Data d"
    using assms(2,3) by (simp_all add: e1_def)
  have r1: "read s1 r1 = (Inr (Data d), s1)"
    using read_resolved [of s1 r1 e1] c1 v1 assms(6) by simp
  have r2: "read s2 r2 = (Inr (Data d), s2)"
    using read_resolved [of s2 r2 e1] c2 v1 assms(7) by simp
  have r3: "read s3 r3 = (Inr (Data d'), s3)"
    using read_resolved [of s3 r3 "e1\<lparr>status := Resolved, value' := Data d', next' := None\<rparr>"]
      c3 assms(8) by simp
  from c1 r1 r2 r3 show ?thesis
    unfolding s3_def s2_def s1_def e1_def h_def by simp
qed

theorem stale_while_revalidate_witness:
  "map_of (cache (run engine0 [Read req_a, Start 0, Settle 0 (Fulfilled 2), On (Args req_a) 0]))
     (getKey req_b) =
     Some \<lparr>status = Resolved, value' = Data 2, next' = None, args = req_a\<rparr> \<and>
   0 < listenerCount (run engine0 [Read req_a, Start 0, Settle 0 (Fulfilled 2), On (Args req_a) 0])
         (getKey req_b) \<and>
   getKey req_a = getKey req_b \<and>
   fst (read (run engine0
     [Read req_a, Start 0, Settle 0 (Fulfilled 2), On (Args req_a) 0, Invalidate req_b]) req_a) =
     Inr (Data 2) \<and>
   fst (read (run engine0
     [Read req_a, Start 0, Settle 0 (Fulfilled 2), On (Args req_a) 0, Invalidate req_b,
      Start 1]) req_a) = Inr (Data 2) \<and>
   fst (read (run engine0
     [Read req_a, Start 0, Settle 0 (Fulfilled 2), On (Args req_a) 0, Invalidate req_b,
      Start 1, Settle 1 (Fulfilled 3)]) req_a) = Inr (Data 3)"
proof -
  define s where "s = run engine0 [Read req_a, Start 0, Settle 0 (Fulfilled 2), On (Args req_a) 0]"
  have h1: "map_of (cache s) (getKey req_b) =
              Some \<lparr>status = Resolved, value' = Data 2, next' = None, args = req_a\<rparr>"
    unfolding s_def by code_simp
  have h2: "status \<lparr>status = Resolved, value' = Data (2::nat), next' = None, args = req_a\<rparr> = Resolved"
    and h3: "value' \<lparr>status = Resolved, value' = Data (2::nat), next' = None, args = req_a\<rparr> = Data 2"
    and h4: "next' \<lparr>status = Resolved, value' = Data (2::nat), next' = None, args = req_a\<rparr> = None"
    by simp_all
  have h5: "0 < listenerCount s (getKey req_b)" unfolding s_def by code_simp
  have h6: "getKey req_a = getKey req_b" by code_simp
  have l: "length (tasks s) = 1" unfolding s_def by code_simp
  have r: "run engine0
      [Read req_a, Start 0, Settle 0 (Fulfilled 2), On (Args req_a) 0, Invalidate req_b] =
      invalidate s req_b"
    "run engine0
      [Read req_a, Start 0, Settle 0 (Fulfilled 2), On (Args req_a) 0, Invalidate req_b,
       Start 1] = step (invalidate s req_b) (Start 1)"
    "run engine0
      [Read req_a, Start 0, Settle 0 (Fulfilled 2), On (Args req_a) 0, Invalidate req_b,
       Start 1, Settle 1 (Fulfilled 3)] =
      step (step (invalidate s req_b) (Start 1)) (Settle 1 (Fulfilled 3))"
    unfolding s_def by (simp_all only: run_def foldl.simps step.simps)
  from stale_while_revalidate [OF h1 h2 h3 h4 h5 h6 h6 h6, of 3]
  show ?thesis
    unfolding r l using h1 h5 h6 by (simp add: s_def [symmetric])
qed

section \<open>C7: what \<^verbatim>\<open>args\<close> names\<close>

text \<open>
  C7, as the code has it. In every state that a sequence of operations, body starts and
  settlements reaches from the empty engine, for every entry: the request in \<^verbatim>\<open>args\<close>
  has the fingerprint the entry is stored under; while the entry is pending, \<^verbatim>\<open>args\<close> is
  the request of the attempt in its value; and while a refresh attempt is in \<^verbatim>\<open>next\<close>,
  the entry is not pending and \<^verbatim>\<open>args\<close> is the request of that refresh attempt (the
  request passed to \<^verbatim>\<open>invalidate\<close>), not the request whose attempt produced the value that
  is still visible. For a settled entry with no \<^verbatim>\<open>next\<close>, on a quiet run (when
  \<^verbatim>\<open>invalidate\<close> never meets an attempt in flight for the fingerprint it is called for),
  \<^verbatim>\<open>args\<close> is the request whose attempt produced the visible value or error: the status
  and the value of the entry are the outcome that the attempt of \<^verbatim>\<open>args\<close> settled with,
  the last one written under the fingerprint.
\<close>

theorem args_of_attached_attempt:
  assumes "map_of (cache (run init es)) k = Some e"
  shows "getKey (args e) = k \<and>
     (status e = Pending \<longrightarrow>
        (\<exists>h. value' e = Promise h \<and> h < length (tasks (run init es)) \<and>
             meta (tasks (run init es) ! h) = args e)) \<and>
     (\<forall>h. next' e = Some h \<longrightarrow>
        status e \<noteq> Pending \<and> h < length (tasks (run init es)) \<and>
        meta (tasks (run init es) ! h) = args e) \<and>
     (quiet_run init es \<and> status e \<noteq> Pending \<and> next' e = None \<longrightarrow>
        (\<exists>out. produced init Map.empty es k = Some (args e, out) \<and>
              status e = outcome_status out \<and> value' e = outcome_value out))"
proof -
  from consistent_entry [OF consistent_reachable assms]
  have ok: "entry_ok (tasks (run init es)) k e" .
  then have "getKey (args e) = k" by (simp add: entry_ok_def)
  moreover have "status e = Pending \<longrightarrow>
        (\<exists>h. value' e = Promise h \<and> h < length (tasks (run init es)) \<and>
             meta (tasks (run init es) ! h) = args e)"
    using entry_ok_pending [OF ok] by blast
  moreover have "\<forall>h. next' e = Some h \<longrightarrow>
        status e \<noteq> Pending \<and> h < length (tasks (run init es)) \<and>
        meta (tasks (run init es) ! h) = args e"
    using entry_ok_next [OF ok] by blast
  moreover have "quiet_run init es \<and> status e \<noteq> Pending \<and> next' e = None \<longrightarrow>
        (\<exists>out. produced init Map.empty es k = Some (args e, out) \<and>
              status e = outcome_status out \<and> value' e = outcome_value out)"
  proof
    assume q: "quiet_run init es \<and> status e \<noteq> Pending \<and> next' e = None"
    then have np: "status e \<noteq> Pending" and n: "next' e = None" by simp_all
    from q tracedD [OF traced_reachable assms np] n
    show "\<exists>out. produced init Map.empty es k = Some (args e, out) \<and>
              status e = outcome_status out \<and> value' e = outcome_value out"
      by auto
  qed
  ultimately show ?thesis by blast
qed

theorem args_of_attached_attempt_witness:
  "map_of (cache (run engine0
      [Read req_a, Start 0, Settle 0 (Fulfilled 2), On (Args req_a) 0, Invalidate req_b]))
     (getKey req_a) =
     Some \<lparr>status = Resolved, value' = Data 2, next' = Some 1, args = req_b\<rparr> \<and>
   getKey req_b = getKey req_a \<and>
   1 < length (tasks (run engine0
      [Read req_a, Start 0, Settle 0 (Fulfilled 2), On (Args req_a) 0, Invalidate req_b])) \<and>
   meta (tasks (run engine0
      [Read req_a, Start 0, Settle 0 (Fulfilled 2), On (Args req_a) 0, Invalidate req_b]) ! 1) =
     req_b \<and>
   map_of (cache (run engine0
      [Read req_a, Start 0, Settle 0 (Fulfilled 2), On (Args req_a) 0, Invalidate req_b,
       Start 1, Settle 1 (Failed ''boom'')]))
     (getKey req_a) =
     Some \<lparr>status = Rejected, value' = Failure (UseAsyncError ''boom''), next' = None,
           args = req_b\<rparr> \<and>
   quiet_run engine0
      [Read req_a, Start 0, Settle 0 (Fulfilled 2), On (Args req_a) 0, Invalidate req_b,
       Start 1, Settle 1 (Failed ''boom'')] \<and>
   (\<exists>out. produced engine0 Map.empty
      [Read req_a, Start 0, Settle 0 (Fulfilled 2), On (Args req_a) 0, Invalidate req_b,
       Start 1, Settle 1 (Failed ''boom'')] (getKey req_a) = Some (req_b, out) \<and>
      Rejected = outcome_status out \<and>
      Failure (UseAsyncError ''boom'') = outcome_value out)"
proof -
  have m: "map_of (cache (run engine0
      [Read req_a, Start 0, Settle 0 (Fulfilled 2), On (Args req_a) 0, Invalidate req_b]))
     (getKey req_a) =
     Some \<lparr>status = Resolved, value' = Data 2, next' = Some 1, args = req_b\<rparr>"
    by code_simp
  have m2: "map_of (cache (run engine0
      [Read req_a, Start 0, Settle 0 (Fulfilled 2), On (Args req_a) 0, Invalidate req_b,
       Start 1, Settle 1 (Failed ''boom'')]))
     (getKey req_a) =
     Some \<lparr>status = Rejected, value' = Failure (UseAsyncError ''boom''), next' = None,
           args = req_b\<rparr>"
    by code_simp
  have q: "quiet_run engine0
      [Read req_a, Start 0, Settle 0 (Fulfilled 2), On (Args req_a) 0, Invalidate req_b,
       Start 1, Settle 1 (Failed ''boom'')]"
    by code_simp
  from args_of_attached_attempt [OF m [unfolded engine0_def]] m
  have a: "getKey req_b = getKey req_a \<and>
   1 < length (tasks (run engine0
      [Read req_a, Start 0, Settle 0 (Fulfilled 2), On (Args req_a) 0, Invalidate req_b])) \<and>
   meta (tasks (run engine0
      [Read req_a, Start 0, Settle 0 (Fulfilled 2), On (Args req_a) 0, Invalidate req_b]) ! 1) =
     req_b"
    by (simp add: engine0_def)
  from args_of_attached_attempt [OF m2 [unfolded engine0_def]] q
  have b: "\<exists>out. produced engine0 Map.empty
      [Read req_a, Start 0, Settle 0 (Fulfilled 2), On (Args req_a) 0, Invalidate req_b,
       Start 1, Settle 1 (Failed ''boom'')] (getKey req_a) = Some (req_b, out) \<and>
      Rejected = outcome_status out \<and>
      Failure (UseAsyncError ''boom'') = outcome_value out"
    by (simp add: engine0_def)
  from m m2 q a b show ?thesis by blast
qed

text \<open>
  C7 as stated fails. The entry is resolved with the data that the attempt of \<open>req_a\<close>
  produced (the only call of \<^verbatim>\<open>fetchData\<close> so far); \<^verbatim>\<open>invalidate\<close> is then called with
  \<open>req_b\<close>, a request with the same fingerprint and another priority. While the refresh
  attempt is in \<^verbatim>\<open>next\<close>, not even started, the visible value is still that data, and
  \<^verbatim>\<open>args\<close> is already \<open>req_b\<close>.

  The last two lines show why the settled case needs a quiet run: \<^verbatim>\<open>invalidate\<close> deletes
  the pending entry of \<open>req_a\<close> while its attempt is running, a read of \<open>req_b\<close> stores a
  new entry, and the attempt of \<open>req_a\<close> then settles into it: the entry is resolved,
  has no \<^verbatim>\<open>next\<close>, shows what \<open>req_a\<close> produced, and its \<^verbatim>\<open>args\<close> is \<open>req_b\<close>.
\<close>

theorem args_of_attached_attempt_counterexample:
  "cache (run engine0 [Read req_a, Start 0, Settle 0 (Fulfilled 2), On (Args req_a) 0]) =
     [(getKey req_a, \<lparr>status = Resolved, value' = Data 2, next' = None, args = req_a\<rparr>)] \<and>
   cache (run engine0
      [Read req_a, Start 0, Settle 0 (Fulfilled 2), On (Args req_a) 0, Invalidate req_b]) =
     [(getKey req_a, \<lparr>status = Resolved, value' = Data 2, next' = Some 1, args = req_b\<rparr>)] \<and>
   fetched (run engine0
      [Read req_a, Start 0, Settle 0 (Fulfilled 2), On (Args req_a) 0, Invalidate req_b]) =
     [req_a] \<and>
   \<not> started (tasks (run engine0
      [Read req_a, Start 0, Settle 0 (Fulfilled 2), On (Args req_a) 0, Invalidate req_b]) ! 1) \<and>
   req_b \<noteq> req_a \<and>
   cache (run engine0 [Read req_a, Start 0, Invalidate req_a, Read req_b, Settle 0 (Fulfilled 7)]) =
     [(getKey req_a, \<lparr>status = Resolved, value' = Data 7, next' = None, args = req_b\<rparr>)] \<and>
   produced engine0 Map.empty
      [Read req_a, Start 0, Invalidate req_a, Read req_b, Settle 0 (Fulfilled 7)] (getKey req_a) =
     Some (req_a, Fulfilled 7)"
  by code_simp

section \<open>C6: the attempt of a pending entry\<close>

text \<open>
  C6, as the code has it. In every state that a sequence of operations, body starts and
  settlements reaches from the empty engine, every pending entry has no \<^verbatim>\<open>next\<close>, and
  its value is an attempt for the entry's fingerprint that is in flight: neither
  cancelled nor settled. On a quiet run, that is, when \<^verbatim>\<open>invalidate\<close> (called directly
  or by \<^verbatim>\<open>invalidateAll\<close>) never meets an attempt in flight for the fingerprint it is
  called for, it is the only attempt in flight for that fingerprint.
\<close>

theorem pending_attempt_in_flight:
  assumes "map_of (cache (run init es)) k = Some e" and "status e = Pending"
  shows "\<exists>h. value' e = Promise h \<and> next' e = None \<and>
             h < length (tasks (run init es)) \<and>
             getKey (meta (tasks (run init es) ! h)) = k \<and>
             live (tasks (run init es) ! h) \<and>
             (quiet_run init es \<longrightarrow>
                (\<forall>h' < length (tasks (run init es)).
                   live (tasks (run init es) ! h') \<and>
                   getKey (meta (tasks (run init es) ! h')) = k \<longrightarrow> h' = h))"
proof -
  let ?s = "run init es"
  have c: "consistent ?s" by (rule consistent_reachable)
  from entry_ok_pending [OF consistent_entry [OF c assms(1)] assms(2)] obtain h where
    h: "value' e = Promise h" "next' e = None" "h < length (tasks ?s)"
      "getKey (meta (tasks ?s ! h)) = k" "live (tasks ?s ! h)"
    by blast
  from assms(2) h have r: "h \<in> refs e" by (simp add: refs_pending)
  have "quiet_run init es \<longrightarrow>
          (\<forall>h' < length (tasks ?s).
             live (tasks ?s ! h') \<and> getKey (meta (tasks ?s ! h')) = k \<longrightarrow> h' = h)"
    using sole_in_flight [OF c attached_reachable assms(1) r] by blast
  with h show ?thesis by blast
qed

theorem pending_attempt_in_flight_witness:
  "map_of (cache (run engine0
      [Read req_a, Start 0, Settle 0 (Fulfilled 2), Invalidate req_a, Read req_a, Read req_b]))
     (getKey req_a) =
     Some \<lparr>status = Pending, value' = Promise 2, next' = None, args = req_b\<rparr> \<and>
   quiet_run engine0
      [Read req_a, Start 0, Settle 0 (Fulfilled 2), Invalidate req_a, Read req_a, Read req_b] \<and>
   live (tasks (run engine0
      [Read req_a, Start 0, Settle 0 (Fulfilled 2), Invalidate req_a, Read req_a, Read req_b]) ! 2) \<and>
   \<not> (\<exists>h'. h' < length (tasks (run engine0
             [Read req_a, Start 0, Settle 0 (Fulfilled 2), Invalidate req_a, Read req_a,
              Read req_b])) \<and>
           live (tasks (run engine0
             [Read req_a, Start 0, Settle 0 (Fulfilled 2), Invalidate req_a, Read req_a,
              Read req_b]) ! h') \<and>
           getKey (meta (tasks (run engine0
             [Read req_a, Start 0, Settle 0 (Fulfilled 2), Invalidate req_a, Read req_a,
              Read req_b]) ! h')) = getKey req_a \<and>
           h' \<noteq> 2)"
proof -
  define es :: "(nat, string) event list" where
    "es = [Read req_a, Start 0, Settle 0 (Fulfilled 2), Invalidate req_a, Read req_a, Read req_b]"
  have m: "map_of (cache (run engine0 es)) (getKey req_a) =
     Some \<lparr>status = Pending, value' = Promise 2, next' = None, args = req_b\<rparr>"
    unfolding es_def by code_simp
  have p: "status \<lparr>status = Pending, value' = Promise 2 :: (nat, string) slot, next' = None,
                   args = req_b\<rparr> = Pending"
    by simp
  have q: "quiet_run engine0 es" unfolding es_def by code_simp
  from pending_attempt_in_flight [OF m [unfolded engine0_def] p] q m
  show ?thesis unfolding es_def [symmetric] by (auto simp: engine0_def)
qed

text \<open>
  C6 as stated fails. \<^verbatim>\<open>invalidate\<close> deletes a pending entry without cancelling its
  attempt; the next \<^verbatim>\<open>read\<close> submits a second attempt for the same fingerprint. Both are
  in flight, and the queue runs both bodies: \<^verbatim>\<open>fetchData\<close> is called twice.
\<close>

theorem pending_attempt_in_flight_counterexample:
  "cache (run engine0 [Read req_a, Invalidate req_a, Read req_a]) =
     [(getKey req_a, \<lparr>status = Pending, value' = Promise 1, next' = None, args = req_a\<rparr>)] \<and>
   length (tasks (run engine0 [Read req_a, Invalidate req_a, Read req_a])) = 2 \<and>
   live (tasks (run engine0 [Read req_a, Invalidate req_a, Read req_a]) ! 0) \<and>
   live (tasks (run engine0 [Read req_a, Invalidate req_a, Read req_a]) ! 1) \<and>
   getKey (meta (tasks (run engine0 [Read req_a, Invalidate req_a, Read req_a]) ! 0)) =
     getKey req_a \<and>
   getKey (meta (tasks (run engine0 [Read req_a, Invalidate req_a, Read req_a]) ! 1)) =
     getKey req_a \<and>
   fetched (run engine0 [Read req_a, Invalidate req_a, Read req_a, Start 0, Start 1]) =
     [req_a, req_a]"
  by code_simp

section \<open>C2: priority preemption\<close>

lemma startLoading_preempts:
  assumes c: "consistent s" and m: "map_of (cache s) (getKey req) = Some e"
    and p: "status e = Pending" and v: "value' e = Promise h"
    and lt: "num_less (priority_or_0 (args e)) (priority_or_0 req)"
    and ns: "\<not> started (tasks s ! h)"
  shows "startLoading s req isRefetch =
           (\<lparr>status = Pending, value' = Promise (length (tasks s)), next' = None, args = req\<rparr>,
            s\<lparr>tasks := (tasks s)[h := (tasks s ! h)\<lparr>aborted := True\<rparr>] @ [new_attempt req],
              cache := AList.update (getKey req)
                \<lparr>status = Pending, value' = Promise (length (tasks s)), next' = None, args = req\<rparr>
                (AList.delete (getKey req) (cache s))\<rparr>)"
proof -
  from consistent_entry [OF c m] have ok: "entry_ok (tasks s) (getKey req) e" .
  from entry_ok_pending [OF ok p] have n: "next' e = None" by blast
  have "preempt s req isRefetch = preempt_pending s (getKey req) e"
    using m lt n by (simp add: preempt_unfold [OF c])
  also have "\<dots> = s\<lparr>tasks := (tasks s)[h := (tasks s ! h)\<lparr>aborted := True\<rparr>],
                    cache := AList.delete (getKey req) (cache s)\<rparr>"
    using p v ns by (simp add: preempt_pending_unfold [OF ok])
  finally have pr: "preempt s req isRefetch =
      s\<lparr>tasks := (tasks s)[h := (tasks s ! h)\<lparr>aborted := True\<rparr>],
        cache := AList.delete (getKey req) (cache s)\<rparr>" .
  have "map_of (cache (s\<lparr>tasks := (tasks s)[h := (tasks s ! h)\<lparr>aborted := True\<rparr>],
        cache := AList.delete (getKey req) (cache s)\<rparr>)) (getKey req) = None"
    by (simp add: map_of_delete_same)
  from admit_absent [OF this] show ?thesis
    unfolding startLoading_def pr by simp
qed

lemma startLoading_too_late:
  assumes c: "consistent s" and m: "map_of (cache s) (getKey req) = Some e"
    and p: "status e = Pending" and v: "value' e = Promise h"
    and st: "started (tasks s ! h)"
  shows "startLoading s req isRefetch = (e, s)"
proof -
  from consistent_entry [OF c m] have ok: "entry_ok (tasks s) (getKey req) e" .
  from entry_ok_pending [OF ok p] have n: "next' e = None" by blast
  have "preempt s req isRefetch = s"
    using m p v st n by (simp add: preempt_unfold [OF c] preempt_pending_unfold [OF ok])
  with m p show ?thesis by (simp add: startLoading_def admit_def)
qed

text \<open>
  C2. Take a state reached from the empty engine, a pending entry in it and a request
  with the entry's fingerprint and a higher priority than the entry's request. The value
  of the entry is an attempt for the entry's request. If its body has not started,
  \<^verbatim>\<open>startLoading\<close> (called for a read or for a refetch) aborts it, deletes the entry and
  stores a new pending entry for the incoming request with a new attempt; the aborted
  attempt stays aborted and not started whatever happens next, and when the queue runs
  its body nothing is fetched. If its body has started, \<^verbatim>\<open>startLoading\<close> changes
  nothing and returns the entry, and the settlement of the original attempt writes its
  outcome into the entry.
\<close>

theorem priority_preemption:
  assumes "map_of (cache (run init es)) (getKey req) = Some e" and "status e = Pending"
    and "num_less (priority_or_0 (args e)) (priority_or_0 req)"
  shows "\<exists>h. value' e = Promise h \<and> h < length (tasks (run init es)) \<and>
           meta (tasks (run init es) ! h) = args e \<and>
           (\<not> started (tasks (run init es) ! h) \<longrightarrow>
              startLoading (run init es) req isRefetch =
                (\<lparr>status = Pending, value' = Promise (length (tasks (run init es))),
                  next' = None, args = req\<rparr>,
                 (run init es)\<lparr>tasks :=
                     (tasks (run init es))[h := (tasks (run init es) ! h)\<lparr>aborted := True\<rparr>] @
                     [new_attempt req],
                   cache := AList.update (getKey req)
                     \<lparr>status = Pending, value' = Promise (length (tasks (run init es))),
                      next' = None, args = req\<rparr>
                     (AList.delete (getKey req) (cache (run init es)))\<rparr>) \<and>
              (\<forall>evs. cancelled (run (snd (startLoading (run init es) req isRefetch)) evs) h \<and>
                     fetched (step (run (snd (startLoading (run init es) req isRefetch)) evs) (Start h)) =
                     fetched (run (snd (startLoading (run init es) req isRefetch)) evs))) \<and>
           (started (tasks (run init es) ! h) \<longrightarrow>
              startLoading (run init es) req isRefetch = (e, run init es) \<and>
              (\<forall>d. map_of (cache (settle (run init es) h (Fulfilled d))) (getKey req) =
                     Some (e\<lparr>status := Resolved, value' := Data d\<rparr>)) \<and>
              (\<forall>x. map_of (cache (settle (run init es) h (Failed x))) (getKey req) =
                     Some (e\<lparr>status := Rejected, value' := Failure (UseAsyncError x)\<rparr>)))"
proof -
  define s where "s = run init es"
  have c: "consistent s" unfolding s_def by (rule consistent_reachable)
  have m: "map_of (cache s) (getKey req) = Some e" using assms(1) by (simp add: s_def)
  from entry_ok_pending [OF consistent_entry [OF c m] assms(2)] obtain h where
    h: "value' e = Promise h" "next' e = None" "h < length (tasks s)"
      "meta (tasks s ! h) = args e" "getKey (meta (tasks s ! h)) = getKey req"
    by blast
  have early: "startLoading s req isRefetch =
                (\<lparr>status = Pending, value' = Promise (length (tasks s)),
                  next' = None, args = req\<rparr>,
                 s\<lparr>tasks := (tasks s)[h := (tasks s ! h)\<lparr>aborted := True\<rparr>] @ [new_attempt req],
                   cache := AList.update (getKey req)
                     \<lparr>status = Pending, value' = Promise (length (tasks s)),
                      next' = None, args = req\<rparr>
                     (AList.delete (getKey req) (cache s))\<rparr>) \<and>
              (\<forall>evs. cancelled (run (snd (startLoading s req isRefetch)) evs) h \<and>
                     fetched (step (run (snd (startLoading s req isRefetch)) evs) (Start h)) =
                     fetched (run (snd (startLoading s req isRefetch)) evs))"
    if ns: "\<not> started (tasks s ! h)"
  proof -
    note sl = startLoading_preempts [OF c m assms(2) h(1) assms(3) ns]
    have "cancelled (snd (startLoading s req isRefetch)) h"
      using h(3) ns by (simp add: sl cancelled_def nth_append)
    then have "\<forall>evs. cancelled (run (snd (startLoading s req isRefetch)) evs) h"
      using cancelled_run by blast
    with sl cancelled_no_fetch show ?thesis by blast
  qed
  have late: "startLoading s req isRefetch = (e, s) \<and>
              (\<forall>d. map_of (cache (settle s h (Fulfilled d))) (getKey req) =
                     Some (e\<lparr>status := Resolved, value' := Data d\<rparr>)) \<and>
              (\<forall>x. map_of (cache (settle s h (Failed x))) (getKey req) =
                     Some (e\<lparr>status := Rejected, value' := Failure (UseAsyncError x)\<rparr>))"
    if st: "started (tasks s ! h)"
  proof -
    from m h(5) have m': "map_of (cache s) (getKey (meta (tasks s ! h))) = Some e" by simp
    have n: "e\<lparr>next' := None\<rparr> = e" using h(2) by simp
    have "map_of (cache (settle s h (Fulfilled d))) (getKey req) =
            Some (e\<lparr>status := Resolved, value' := Data d\<rparr>)" for d
      using h(2,5) by (simp add: settle_present [OF m'] update_conv')
    moreover have "map_of (cache (settle s h (Failed x))) (getKey req) =
            Some (e\<lparr>status := Rejected, value' := Failure (UseAsyncError x)\<rparr>)" for x
      using h(2,5) by (simp add: settle_present [OF m'] update_conv')
    ultimately show ?thesis
      using startLoading_too_late [OF c m assms(2) h(1) st] by blast
  qed
  from h early late show ?thesis unfolding s_def by blast
qed

theorem priority_preemption_witness:
  "map_of (cache (run engine0 [Read req_a])) (getKey req_b) =
     Some \<lparr>status = Pending, value' = Promise 0, next' = None, args = req_a\<rparr> \<and>
   num_less (priority_or_0 req_a) (priority_or_0 req_b) \<and>
   \<not> started (tasks (run engine0 [Read req_a]) ! 0) \<and>
   fst (startLoading (run engine0 [Read req_a]) req_b False) =
     \<lparr>status = Pending, value' = Promise 1, next' = None, args = req_b\<rparr> \<and>
   cancelled (run (snd (startLoading (run engine0 [Read req_a]) req_b False)) [Start 0, Start 1]) 0 \<and>
   map_of (cache (run engine0 [Read req_a, Start 0])) (getKey req_b) =
     Some \<lparr>status = Pending, value' = Promise 0, next' = None, args = req_a\<rparr> \<and>
   started (tasks (run engine0 [Read req_a, Start 0]) ! 0) \<and>
   startLoading (run engine0 [Read req_a, Start 0]) req_b False =
     (\<lparr>status = Pending, value' = Promise 0, next' = None, args = req_a\<rparr>,
      run engine0 [Read req_a, Start 0]) \<and>
   map_of (cache (settle (run engine0 [Read req_a, Start 0]) 0 (Fulfilled 2))) (getKey req_b) =
     Some \<lparr>status = Resolved, value' = Data 2, next' = None, args = req_a\<rparr>"
proof -
  let ?e = "\<lparr>status = Pending, value' = Promise 0 :: (nat, string) slot, next' = None,
             args = req_a\<rparr>"
  have m1: "map_of (cache (run engine0 [Read req_a])) (getKey req_b) = Some ?e"
    by code_simp
  have m2: "map_of (cache (run engine0 [Read req_a, Start 0])) (getKey req_b) = Some ?e"
    by code_simp
  have p: "status ?e = Pending" by simp
  have lt: "num_less (priority_or_0 (args ?e)) (priority_or_0 req_b)" by code_simp
  have lt': "num_less (priority_or_0 req_a) (priority_or_0 req_b)" by code_simp
  have n1: "\<not> started (tasks (run engine0 [Read req_a]) ! 0)" by code_simp
  have n2: "started (tasks (run engine0 [Read req_a, Start 0]) ! 0)" by code_simp
  have l1: "length (tasks (run engine0 [Read req_a])) = 1" by code_simp
  from priority_preemption [OF m1 [unfolded engine0_def] p lt, of False]
  obtain h where h: "value' ?e = Promise h"
    and a: "\<not> started (tasks (run engine0 [Read req_a]) ! h) \<longrightarrow>
       fst (startLoading (run engine0 [Read req_a]) req_b False) =
         \<lparr>status = Pending, value' = Promise (length (tasks (run engine0 [Read req_a]))),
           next' = None, args = req_b\<rparr> \<and>
       (\<forall>evs. cancelled (run (snd (startLoading (run engine0 [Read req_a]) req_b False)) evs) h)"
    unfolding engine0_def [symmetric] by auto
  from h have h0: "h = 0" by simp
  from priority_preemption [OF m2 [unfolded engine0_def] p lt, of False]
  obtain h' where h': "value' ?e = Promise h'"
    and b: "started (tasks (run engine0 [Read req_a, Start 0]) ! h') \<longrightarrow>
       startLoading (run engine0 [Read req_a, Start 0]) req_b False =
         (?e, run engine0 [Read req_a, Start 0]) \<and>
       map_of (cache (settle (run engine0 [Read req_a, Start 0]) h' (Fulfilled 2))) (getKey req_b) =
         Some (?e\<lparr>status := Resolved, value' := Data 2\<rparr>)"
    unfolding engine0_def [symmetric] by auto
  from h' have h0': "h' = 0" by simp
  from a b n1 n2 m1 m2 lt' show ?thesis unfolding h0 h0' l1 by simp
qed

section \<open>C1: deduplication of concurrent reads\<close>

text \<open>
  C1. Start from a state in which the fingerprint \<open>k\<close> is unseen, and let any number of
  reads and preloads of requests with the fingerprint \<open>k\<close> (at least one) happen, in any
  order and interleaved in any way with the queue starting bodies, with no settlement.
  Then \<^verbatim>\<open>fetchData\<close> has been called at most once for \<open>k\<close>, and exactly once as soon as
  the queue has run the body of every submitted task. The reasons, as the claim gives
  them: \<^verbatim>\<open>startLoading\<close> that is not a refetch and finds an entry when it reads the
  table again (after the preemption step) submits no attempt; and the body of an aborted
  attempt returns without calling \<^verbatim>\<open>fetchData\<close>.
\<close>

theorem dedup_single_fetch:
  assumes "unseen s0 k" and "\<forall>ev \<in> set es. read_or_start k ev"
    and "\<exists>ev \<in> set es. is_read ev"
  shows "length (fetches_for (run s0 es) k) \<le> 1 \<and>
         length (fetches_for (flush (run s0 es)) k) = 1 \<and>
         (\<forall>(s :: ('d, 'x) engine) req e. map_of (cache s) (getKey req) = Some e \<longrightarrow>
            tasks (snd (admit s req False)) = tasks s) \<and>
         (\<forall>(s :: ('d, 'x) engine) h. aborted (tasks s ! h) \<longrightarrow>
            fetched (run_body s h) = fetched s)"
proof -
  from unseen_run [OF assms(2) assms(1) assms(3)] obtain h' where
    d: "sole_attempt (run s0 es) k h'" by blast
  then have "length (fetches_for (run s0 es) k) \<le> 1" by (simp add: sole_attempt_def)
  moreover from sole_attempt_flush [OF d]
  have "length (fetches_for (flush (run s0 es)) k) = 1" by simp
  ultimately show ?thesis by (simp add: admit_present_read run_body_aborted)
qed

theorem dedup_single_fetch_witness:
  "unseen engine0 (getKey req_a) \<and>
   list_all (read_or_start (getKey req_a))
     [Read req_a, Read req_b, Start 0, Preload req_a :: (nat, string) event] \<and>
   list_all is_read [Read req_a :: (nat, string) event] \<and>
   length (tasks (run engine0 [Read req_a, Read req_b, Start 0, Preload req_a])) = 2 \<and>
   length (fetches_for (run engine0 [Read req_a, Read req_b, Start 0, Preload req_a])
     (getKey req_a)) \<le> 1 \<and>
   length (fetches_for (flush (run engine0 [Read req_a, Read req_b, Start 0, Preload req_a]))
     (getKey req_a)) = 1"
proof -
  have u: "unseen engine0 (getKey req_a)" by code_simp
  have l: "list_all (read_or_start (getKey req_a))
     [Read req_a, Read req_b, Start 0, Preload req_a :: (nat, string) event]"
    by code_simp
  then have r: "\<forall>ev \<in> set [Read req_a, Read req_b, Start 0, Preload req_a :: (nat, string) event].
             read_or_start (getKey req_a) ev"
    by (simp only: list_all_iff)
  have i: "\<exists>ev \<in> set [Read req_a, Read req_b, Start 0, Preload req_a :: (nat, string) event].
             is_read ev"
    by simp
  have t: "length (tasks (run engine0 [Read req_a, Read req_b, Start 0, Preload req_a])) = 2"
    by code_simp
  from dedup_single_fetch [OF u r i]
  have "length (fetches_for (run engine0 [Read req_a, Read req_b, Start 0, Preload req_a])
          (getKey req_a)) \<le> 1 \<and>
        length (fetches_for (flush (run engine0 [Read req_a, Read req_b, Start 0, Preload req_a]))
          (getKey req_a)) = 1"
    by blast
  with u l t show ?thesis by simp
qed

end
